theory Spec2Isabelle
  imports Complex_Main "HOL-Library.Word" "HOL-Library.Sublist"
begin

unbundle bit_operations_syntax

section \<open>Data model (the pydantic response models of \<^verbatim>\<open>app/main.py\<close>)\<close>

text \<open>
  Python's unbounded integers are \<^typ>\<open>int\<close>. A float is modelled by the real number
  that it denotes; infinities and NaN are no values of the model.
  The field \<^verbatim>\<open>notation\<close> of \<^verbatim>\<open>PlayResponse\<close> is called \<open>notation_str\<close>.
\<close>

record MoveResponse =
  from_point :: int
  to_point :: int
  die_used :: int
  is_hit :: bool
  is_bear_off :: bool

record PlayResponse =
  moves :: "MoveResponse list"
  notation_str :: string

record RankedPlay =
  rank :: int
  play :: PlayResponse
  equity :: real
  win_probability :: real
  equity_difference :: real

record EvaluateResponse =
  best_play :: PlayResponse
  best_equity :: real
  all_plays :: "RankedPlay list"

section \<open>Python string helpers\<close>

definition digit_char :: "nat \<Rightarrow> char" where
  "digit_char d = ''0123456789'' ! d"

function str_nat :: "nat \<Rightarrow> string" where
  "str_nat n = (if n < 10 then [digit_char n] else str_nat (n div 10) @ [digit_char (n mod 10)])"
  by pat_completeness auto
termination
  by (relation "measure (\<lambda>n. n)") auto

declare str_nat.simps [simp del]

text \<open>
  \<^verbatim>\<open>str(i)\<close> for an integer. The integers that the program prints (points, dice,
  checker counts) are taken to have at most the 4300 digits that the interpreter
  converts to text.
\<close>

definition str_int :: "int \<Rightarrow> string" where
  "str_int i = (if i < 0 then CHR ''-'' # str_nat (nat (- i)) else str_nat (nat i))"

text \<open>\<^verbatim>\<open>sep.join(parts)\<close>.\<close>

fun join :: "string \<Rightarrow> string list \<Rightarrow> string" where
  "join sep [] = []"
| "join sep [p] = p"
| "join sep (p # q # ps) = p @ sep @ join sep (q # ps)"

section \<open>Subtraction of floats\<close>

text \<open>
  A Python float is an IEEE 754 double: 53 significant bits, exponents from \<open>-1022\<close> to
  1023, and below \<open>2 ^ -1022\<close> the fixed spacing \<open>2 ^ -1074\<close>. The negation of a double is
  exact. The difference \<^verbatim>\<open>x - y\<close> of two doubles is the double nearest to the exact
  difference, a tie going to the even significand. A difference beyond the largest
  double, which the program would hold as an infinity, is outside the model; \<^verbatim>\<open>1.0 - p\<close>
  stays within the doubles for every double \<open>p\<close>.
\<close>

definition pow2 :: "int \<Rightarrow> real" where
  "pow2 k = (if 0 \<le> k then 2 ^ nat k else 1 / 2 ^ nat (- k))"

text \<open>The exponent \<open>e\<close> of a number: \<open>2 ^ e \<le> \<bar>x\<bar> < 2 ^ (e + 1)\<close>, kept between
  \<open>-1022\<close> and 1023.\<close>

function norm_up :: "real \<Rightarrow> int \<Rightarrow> int" where
  "norm_up x e = (if 2 \<le> x \<and> e < 1023 then norm_up (x / 2) (e + 1) else e)"
  by pat_completeness auto
termination
  by (relation "measure (\<lambda>(x, e). nat (1023 - e))") auto

function norm_down :: "real \<Rightarrow> int \<Rightarrow> int" where
  "norm_down x e = (if x < 1 \<and> - 1022 < e then norm_down (2 * x) (e - 1) else e)"
  by pat_completeness auto
termination
  by (relation "measure (\<lambda>(x, e). nat (e + 1022))") auto

declare norm_up.simps [simp del] norm_down.simps [simp del]

definition double_exponent :: "real \<Rightarrow> int" where
  "double_exponent x = (if 1 \<le> \<bar>x\<bar> then norm_up \<bar>x\<bar> 0 else norm_down \<bar>x\<bar> 0)"

text \<open>The integer nearest to \<open>q\<close>, the even one of the two when \<open>q\<close> lies half way.\<close>

definition round_half_even :: "real \<Rightarrow> int" where
  "round_half_even q =
     (let n = \<lfloor>q\<rfloor>; r = q - of_int n
      in if r < 1 / 2 then n else if 1 / 2 < r then n + 1 else if even n then n else n + 1)"

text \<open>The double nearest to \<open>x\<close>: a multiple of \<open>2 ^ (e - 52)\<close>.\<close>

definition round_double :: "real \<Rightarrow> real" where
  "round_double x =
     (let q = pow2 (double_exponent x - 52) in of_int (round_half_even (x / q)) * q)"

text \<open>\<^verbatim>\<open>x - y\<close> on floats.\<close>

definition float_sub :: "real \<Rightarrow> real \<Rightarrow> real" where
  "float_sub x y = round_double (x - y)"

section \<open>\<^verbatim>\<open>GnuBgEngine._transform_for_black\<close>\<close>

definition transform_move :: "MoveResponse \<Rightarrow> MoveResponse" where
  "transform_move m =
     (let from_pt = (if from_point m = 0 then 25 else 25 - from_point m);
          to_pt = (if is_bear_off m then from_pt + die_used m else 25 - to_point m)
      in \<lparr>from_point = from_pt, to_point = to_pt, die_used = die_used m,
          is_hit = is_hit m, is_bear_off = is_bear_off m\<rparr>)"

text \<open>One iteration of the loop that fills \<^verbatim>\<open>notation_parts\<close>.\<close>

definition notation_part :: "MoveResponse \<Rightarrow> string" where
  "notation_part m =
     (let from_str = (if from_point m = 0 then ''bar'' else str_int (from_point m));
          to_str = (if is_bear_off m then ''off'' else str_int (to_point m))
      in from_str @ ''/'' @ to_str @ (if is_hit m then ''*'' else ''''))"

fun notation_parts :: "MoveResponse list \<Rightarrow> string list \<Rightarrow> string list" where
  "notation_parts [] acc = acc"
| "notation_parts (m # ms) acc = notation_parts ms (acc @ [notation_part m])"

definition transform_play :: "PlayResponse \<Rightarrow> PlayResponse" where
  "transform_play p =
     (let new_moves = map transform_move (moves p)
      in \<lparr>moves = new_moves, notation_str = join '' '' (notation_parts new_moves [])\<rparr>)"

definition transform_ranked :: "RankedPlay \<Rightarrow> RankedPlay" where
  "transform_ranked rp =
     \<lparr>rank = rank rp, play = transform_play (play rp), equity = - equity rp,
      win_probability = float_sub 1 (win_probability rp),
      equity_difference = equity_difference rp\<rparr>"

definition transform_for_black :: "EvaluateResponse \<Rightarrow> EvaluateResponse" where
  "transform_for_black result =
     (let new_best = transform_play (best_play result);
          new_all = map transform_ranked (all_plays result)
      in \<lparr>best_play = new_best, best_equity = - best_equity result, all_plays = new_all\<rparr>)"

text \<open>
  What two applications of \<open>transform_play\<close> leave of a play, described directly: a bear-off
  move ends with its destination recomputed as from-point plus die, and the notation is
  the string regenerated from the moves.
\<close>

definition settle_bear_off :: "MoveResponse \<Rightarrow> MoveResponse" where
  "settle_bear_off m =
     m\<lparr>to_point := (if is_bear_off m then from_point m + die_used m else to_point m)\<rparr>"

definition regenerated :: "PlayResponse \<Rightarrow> PlayResponse" where
  "regenerated p =
     \<lparr>moves = map settle_bear_off (moves p),
      notation_str = join '' '' (map notation_part (map settle_bear_off (moves p)))\<rparr>"

text \<open>
  The result that the parser returns for the hint line \<^verbatim>\<open>1. 6/off Eq.: +0.5\<close>: a
  bear-off, whose destination is the placeholder 0.
\<close>

definition bear_off_result :: EvaluateResponse where
  "bear_off_result =
     \<lparr>best_play = \<lparr>moves = [\<lparr>from_point = 6, to_point = 0, die_used = 6,
                               is_hit = False, is_bear_off = True\<rparr>],
                   notation_str = ''6/off''\<rparr>,
      best_equity = 1 / 2,
      all_plays = [\<lparr>rank = 1,
                     play = \<lparr>moves = [\<lparr>from_point = 6, to_point = 0, die_used = 6,
                                        is_hit = False, is_bear_off = True\<rparr>],
                             notation_str = ''6/off''\<rparr>,
                     equity = 1 / 2, win_probability = 1 / 2,
                     equity_difference = 0\<rparr>]\<rparr>"

text \<open>
  A result without bear-off whose notation is the regenerated one and whose win
  probability is the float \<^verbatim>\<open>0.1\<close>, the double \<open>3602879701896397 / 2 ^ 55\<close>.
\<close>

definition tenth_result :: EvaluateResponse where
  "tenth_result =
     \<lparr>best_play = \<lparr>moves = [\<lparr>from_point = 13, to_point = 10, die_used = 3,
                               is_hit = False, is_bear_off = False\<rparr>],
                   notation_str = ''13/10''\<rparr>,
      best_equity = 1 / 2,
      all_plays = [\<lparr>rank = 1,
                     play = \<lparr>moves = [\<lparr>from_point = 13, to_point = 10, die_used = 3,
                                        is_hit = False, is_bear_off = False\<rparr>],
                             notation_str = ''13/10''\<rparr>,
                     equity = 1 / 2,
                     win_probability = 3602879701896397 / 36028797018963968,
                     equity_difference = 0\<rparr>]\<rparr>"

text \<open>A result to try the transform on: the play that \<^verbatim>\<open>24/21 13/10*\<close> parses to, with
  equity 0.123.\<close>

definition example_play :: PlayResponse where
  "example_play =
     \<lparr>moves = [\<lparr>from_point = 24, to_point = 21, die_used = 3, is_hit = False,
                 is_bear_off = False\<rparr>,
               \<lparr>from_point = 13, to_point = 10, die_used = 3, is_hit = True,
                 is_bear_off = False\<rparr>],
      notation_str = ''24/21 13/10*''\<rparr>"

definition example_result :: EvaluateResponse where
  "example_result =
     \<lparr>best_play = example_play, best_equity = 123 / 1000,
      all_plays = [\<lparr>rank = 1, play = example_play, equity = 123 / 1000,
                     win_probability = 1 / 2, equity_difference = 0\<rparr>]\<rparr>"

section \<open>Errors\<close>

text \<open>The exceptions the modelled code can raise. \<open>EngineFault\<close> stands for any exception
  of class \<^verbatim>\<open>Exception\<close> raised while talking to the subprocess.\<close>

datatype py_error = ValueError | IndexError | RuntimeError | EngineFault

section \<open>\<^verbatim>\<open>_parse_notation\<close>: splitting combined moves\<close>

text \<open>
  The inner loop \<^verbatim>\<open>for d1 in range(1, 7)\<close> with its \<^verbatim>\<open>break\<close>: the moves appended
  for the first \<open>d1\<close> whose complement is a die value, nothing when the loop runs out.
\<close>

fun find_split :: "MoveResponse \<Rightarrow> int list \<Rightarrow> MoveResponse list" where
  "find_split m [] = []"
| "find_split m (d1 # ds) =
     (let total = die_used m; d2 = total - d1
      in if 1 \<le> d2 \<and> d2 \<le> 6 then
           (let mid_pt = (if to_point m > from_point m then from_point m + d1
                          else from_point m - d1)
            in [\<lparr>from_point = from_point m, to_point = mid_pt, die_used = d1,
                  is_hit = False, is_bear_off = False\<rparr>,
                \<lparr>from_point = mid_pt, to_point = to_point m, die_used = d2,
                  is_hit = is_hit m, is_bear_off = False\<rparr>])
         else find_split m ds)"

text \<open>What one iteration of the post-processing loop appends to \<^verbatim>\<open>processed_moves\<close>.\<close>

definition split_move :: "MoveResponse \<Rightarrow> MoveResponse list" where
  "split_move m =
     (if die_used m > 6 \<and> \<not> is_bear_off m then
        (if die_used m \<le> 12 then find_split m [1, 2, 3, 4, 5, 6] else [m])
      else [m])"

fun post_process :: "MoveResponse list \<Rightarrow> MoveResponse list \<Rightarrow> MoveResponse list" where
  "post_process [] processed_moves = processed_moves"
| "post_process (m # ms) processed_moves = post_process ms (processed_moves @ split_move m)"

section \<open>\<^verbatim>\<open>GnuBgEngine._make_position_id\<close>\<close>

text \<open>\<^verbatim>\<open>bits.extend([1] * count); bits.append(0)\<close>. A list times a negative number is
  empty in Python, as \<open>replicate (nat count)\<close> is.\<close>

definition extend_run :: "nat list \<Rightarrow> int \<Rightarrow> nat list" where
  "extend_run bits count = bits @ replicate (nat count) 1 @ [0]"

text \<open>
  The bit list before truncation. \<^verbatim>\<open>range(24)\<close> is \<open>[0..<24]\<close> and
  \<^verbatim>\<open>range(23, -1, -1)\<close> is \<open>rev [0..<24]\<close>. Reading \<^verbatim>\<open>points[i]\<close> or \<^verbatim>\<open>bar[k]\<close>
  out of range raises \<^verbatim>\<open>IndexError\<close>; nothing is written before, so the check is made
  first.
\<close>

definition position_bits :: "int list \<Rightarrow> int list \<Rightarrow> py_error + nat list" where
  "position_bits points bar =
     (if length points < 24 \<or> length bar < 2 then Inl IndexError
      else
        (let bits = [];
             bits = fold (\<lambda>i bits. extend_run bits (max 0 (points ! i))) [0..<24] bits;
             bits = extend_run bits (bar ! 0);
             bits = fold (\<lambda>i bits. extend_run bits (max 0 (- (points ! i)))) (rev [0..<24]) bits;
             bits = extend_run bits (bar ! 1)
         in Inr bits))"

text \<open>\<^verbatim>\<open>bits = (bits + [0] * 80)[:80]\<close>\<close>

definition truncate_pad :: "nat list \<Rightarrow> nat list" where
  "truncate_pad bits = take 80 (bits @ replicate 80 0)"

text \<open>
  The packing loop over \<^verbatim>\<open>enumerate(bits)\<close>, on a \<^verbatim>\<open>bytearray\<close> held as a list of
  numbers: \<^verbatim>\<open>data[i // 8] |= (1 << (i % 8))\<close>.
\<close>

fun pack_loop :: "nat \<Rightarrow> nat list \<Rightarrow> nat list \<Rightarrow> nat list" where
  "pack_loop i [] data = data"
| "pack_loop i (b # bits) data =
     pack_loop (Suc i) bits
       (if b \<noteq> 0 then data[i div 8 := (data ! (i div 8)) OR push_bit (i mod 8) 1]
        else data)"

definition pack_bits :: "nat list \<Rightarrow> nat list" where
  "pack_bits bits = pack_loop 0 bits (replicate 10 0)"

text \<open>\<^verbatim>\<open>base64.b64encode\<close> of the standard library, after RFC 4648.\<close>

definition b64_alphabet :: string where
  "b64_alphabet = ''ABCDEFGHIJKLMNOPQRSTUVWXYZabcdefghijklmnopqrstuvwxyz0123456789+/''"

definition b64_char :: "nat \<Rightarrow> char" where
  "b64_char n = b64_alphabet ! n"

fun b64encode :: "nat list \<Rightarrow> string" where
  "b64encode [] = []"
| "b64encode [a] = [b64_char (a div 4), b64_char ((a mod 4) * 16), CHR ''='', CHR ''='']"
| "b64encode [a, b] =
     [b64_char (a div 4), b64_char ((a mod 4) * 16 + b div 16), b64_char ((b mod 16) * 4),
      CHR ''='']"
| "b64encode (a # b # c # rest) =
     [b64_char (a div 4), b64_char ((a mod 4) * 16 + b div 16),
      b64_char ((b mod 16) * 4 + c div 64), b64_char (c mod 64)] @ b64encode rest"

text \<open>\<^verbatim>\<open>s.rstrip('=')\<close>\<close>

definition rstrip_eq :: "string \<Rightarrow> string" where
  "rstrip_eq s = rev (dropWhile (\<lambda>c. c = CHR ''='') (rev s))"

definition make_position_id :: "int list \<Rightarrow> int list \<Rightarrow> py_error + string" where
  "make_position_id points bar =
     (case position_bits points bar of
        Inl e \<Rightarrow> Inl e
      | Inr bits \<Rightarrow> Inr (rstrip_eq (b64encode (pack_bits (truncate_pad bits)))))"

subsection \<open>The bit layout in the specification's words, and its decoder\<close>

text \<open>
  The layout as the specification words it: for white a run of 1-bits per point in
  ascending index order, each closed by a 0-bit, then white's bar run; then black's runs
  in descending index order and black's bar run.
\<close>

definition run :: "nat \<Rightarrow> nat list" where
  "run n = replicate n 1 @ [0]"

definition white_at :: "int list \<Rightarrow> nat \<Rightarrow> nat" where
  "white_at points i = nat (max 0 (points ! i))"

definition black_at :: "int list \<Rightarrow> nat \<Rightarrow> nat" where
  "black_at points i = nat (max 0 (- (points ! i)))"

definition spec_layout :: "int list \<Rightarrow> int list \<Rightarrow> nat list" where
  "spec_layout points bar =
     concat (map (\<lambda>i. run (white_at points i)) [0..<24]) @ run (nat (bar ! 0)) @
     concat (map (\<lambda>i. run (black_at points i)) (rev [0..<24])) @ run (nat (bar ! 1))"

text \<open>Reading the layout back: one run, then \<open>n\<close> runs in a row.\<close>

definition read_run :: "nat list \<Rightarrow> nat \<times> nat list" where
  "read_run bits = (length (takeWhile (\<lambda>b. b \<noteq> 0) bits), tl (dropWhile (\<lambda>b. b \<noteq> 0) bits))"

fun read_runs :: "nat \<Rightarrow> nat list \<Rightarrow> nat list \<times> nat list" where
  "read_runs 0 bits = ([], bits)"
| "read_runs (Suc n) bits =
     (let (c, rest) = read_run bits; (cs, rest') = read_runs n rest in (c # cs, rest'))"

definition decode_layout :: "nat list \<Rightarrow> int list \<times> int list" where
  "decode_layout bits =
     (let (w, rest) = read_runs 25 bits; (b, rest') = read_runs 25 rest
      in (map (\<lambda>i. int (w ! i) - int (b ! (23 - i))) [0..<24], [int (w ! 24), int (b ! 24)]))"

text \<open>Reading the identifier back: base64 without padding, then the bits of the bytes,
  least significant first.\<close>

fun index_of :: "'a \<Rightarrow> 'a list \<Rightarrow> nat option" where
  "index_of x [] = None"
| "index_of x (y # ys) = (if x = y then Some 0 else map_option Suc (index_of x ys))"

definition b64_index :: "char \<Rightarrow> nat option" where
  "b64_index c = index_of c b64_alphabet"

fun b64decode_sextets :: "nat list \<Rightarrow> nat list option" where
  "b64decode_sextets [] = Some []"
| "b64decode_sextets [s] = None"
| "b64decode_sextets [s, t] = Some [s * 4 + t div 16]"
| "b64decode_sextets [s, t, u] = Some [s * 4 + t div 16, (t mod 16) * 16 + u div 4]"
| "b64decode_sextets (s # t # u # v # rest) =
     map_option (\<lambda>bs. [s * 4 + t div 16, (t mod 16) * 16 + u div 4, (u mod 4) * 64 + v] @ bs)
       (b64decode_sextets rest)"

fun those_list :: "'a option list \<Rightarrow> 'a list option" where
  "those_list [] = Some []"
| "those_list (None # xs) = None"
| "those_list (Some x # xs) = map_option (\<lambda>ys. x # ys) (those_list xs)"

definition b64decode_unpadded :: "string \<Rightarrow> nat list option" where
  "b64decode_unpadded s =
     (case those_list (map b64_index s) of None \<Rightarrow> None | Some ss \<Rightarrow> b64decode_sextets ss)"

definition unpack_bits :: "nat list \<Rightarrow> nat list" where
  "unpack_bits data =
     map (\<lambda>i. if bit (data ! (i div 8)) (i mod 8) then 1 else 0) [0..<8 * length data]"

definition decode_position_id :: "string \<Rightarrow> (int list \<times> int list) option" where
  "decode_position_id s = map_option (\<lambda>data. decode_layout (unpack_bits data)) (b64decode_unpadded s)"

text \<open>
  The checker counts of \<^verbatim>\<open>evaluate\<close> (lines 134 and 135) and the invariant of the data
  model: bar and borne-off entries are counts, so not negative, and each side has 15
  checkers in all.
\<close>

definition white_count :: "int list \<Rightarrow> int list \<Rightarrow> int list \<Rightarrow> int" where
  "white_count points bar borne_off =
     sum_list (map (\<lambda>p. max 0 p) points) + bar ! 0 + borne_off ! 0"

definition black_count :: "int list \<Rightarrow> int list \<Rightarrow> int list \<Rightarrow> int" where
  "black_count points bar borne_off =
     sum_list (map (\<lambda>p. max 0 (- p)) points) + bar ! 1 + borne_off ! 1"

definition board_invariant :: "int list \<Rightarrow> int list \<Rightarrow> int list \<Rightarrow> bool" where
  "board_invariant points bar borne_off \<longleftrightarrow>
     length points = 24 \<and> length bar = 2 \<and> length borne_off = 2 \<and>
     0 \<le> bar ! 0 \<and> 0 \<le> bar ! 1 \<and> 0 \<le> borne_off ! 0 \<and> 0 \<le> borne_off ! 1 \<and>
     white_count points bar borne_off = 15 \<and> black_count points bar borne_off = 15"

text \<open>The opening position: white (positive) on points 24, 13, 8 and 6, black mirrored.\<close>

definition opening_points :: "int list" where
  "opening_points =
     [- 2, 0, 0, 0, 0, 5,  0, 3, 0, 0, 0, - 5,  5, 0, 0, 0, - 3, 0,  - 5, 0, 0, 0, 0, 2]"

section \<open>Python strings and numbers\<close>

text \<open>
  Strings are lists of 8-bit characters. \<open>isspace\<close> holds of the characters below 256
  that \<^verbatim>\<open>str.isspace\<close> accepts; \<^verbatim>\<open>str.split()\<close>, \<^verbatim>\<open>str.strip()\<close>, \<^verbatim>\<open>int()\<close> and
  the class \<^verbatim>\<open>\s\<close> of \<^verbatim>\<open>re\<close> all use it.
\<close>

definition isspace :: "char \<Rightarrow> bool" where
  "isspace c \<longleftrightarrow>
     c \<in> set [CHR 0x09, CHR 0x0A, CHR 0x0B, CHR 0x0C, CHR 0x0D, CHR 0x1C, CHR 0x1D,
               CHR 0x1E, CHR 0x1F, CHR 0x20, CHR 0x85, CHR 0xA0]"

definition isdigit :: "char \<Rightarrow> bool" where
  "isdigit c \<longleftrightarrow> c \<in> set ''0123456789''"

text \<open>\<^verbatim>\<open>s.strip()\<close>\<close>

definition strip :: "string \<Rightarrow> string" where
  "strip s = rev (dropWhile isspace (rev (dropWhile isspace s)))"

text \<open>\<^verbatim>\<open>s.split()\<close>: the maximal runs of characters that are not whitespace. \<open>cur\<close> is
  the run being read, reversed.\<close>

fun split_ws :: "string \<Rightarrow> string \<Rightarrow> string list" where
  "split_ws [] cur = (if cur = [] then [] else [rev cur])"
| "split_ws (c # cs) cur =
     (if isspace c then (if cur = [] then split_ws cs [] else rev cur # split_ws cs [])
      else split_ws cs (c # cur))"

text \<open>\<^verbatim>\<open>s.split(sep)\<close> for a separator of one character: empty pieces are kept.\<close>

fun split_on :: "char \<Rightarrow> string \<Rightarrow> string \<Rightarrow> string list" where
  "split_on sep [] cur = [rev cur]"
| "split_on sep (c # cs) cur =
     (if c = sep then rev cur # split_on sep cs [] else split_on sep cs (c # cur))"

text \<open>\<^verbatim>\<open>s.lower()\<close> and the upper case of one letter, on the ASCII letters; a character
  outside ASCII is left as it is, which changes no comparison with an ASCII word.\<close>

definition lower_char :: "char \<Rightarrow> char" where
  "lower_char c =
     (case index_of c ''ABCDEFGHIJKLMNOPQRSTUVWXYZ'' of
        None \<Rightarrow> c
      | Some n \<Rightarrow> ''abcdefghijklmnopqrstuvwxyz'' ! n)"


definition lower :: "string \<Rightarrow> string" where
  "lower s = map lower_char s"




text \<open>\<^verbatim>\<open>needle in s\<close> for strings.\<close>

fun starts_with :: "string \<Rightarrow> string \<Rightarrow> bool" where
  "starts_with [] s = True"
| "starts_with (n # ns) [] = False"
| "starts_with (n # ns) (c # cs) = (n = c \<and> starts_with ns cs)"

fun contains :: "string \<Rightarrow> string \<Rightarrow> bool" where
  "contains needle [] = (needle = [])"
| "contains needle (c # cs) = (starts_with needle (c # cs) \<or> contains needle cs)"

text \<open>The value of a string of decimal digits, most significant first.\<close>

definition digit_value :: "char \<Rightarrow> nat" where
  "digit_value c = (case index_of c ''0123456789'' of None \<Rightarrow> 0 | Some d \<Rightarrow> d)"

fun digits_value :: "string \<Rightarrow> nat \<Rightarrow> nat" where
  "digits_value [] acc = acc"
| "digits_value (c # cs) acc = digits_value cs (10 * acc + digit_value c)"

text \<open>
  \<^verbatim>\<open>int(s)\<close>: whitespace around the number is dropped, a sign may come first, and the
  digits may be grouped by single underscores; anything else raises \<^verbatim>\<open>ValueError\<close>.
  The whitespace \<^verbatim>\<open>int()\<close> drops is that of \<open>isspace\<close> without the four separator
  controls 0x1C to 0x1F. A number of more than \<open>max_str_digits\<close> digits, leading zeros
  counted and underscores not, raises \<^verbatim>\<open>ValueError\<close> as well: the interpreter's limit
  on the conversion of text to integers, 4300 digits unless it is configured otherwise.
\<close>

definition max_str_digits :: nat where
  "max_str_digits = 4300"

definition int_space :: "char \<Rightarrow> bool" where
  "int_space c \<longleftrightarrow>
     c \<in> set [CHR 0x09, CHR 0x0A, CHR 0x0B, CHR 0x0C, CHR 0x0D, CHR 0x20, CHR 0x85, CHR 0xA0]"

fun digit_groups :: "string \<Rightarrow> bool" where
  "digit_groups [] = False"
| "digit_groups [c] = isdigit c"
| "digit_groups (c # d # cs) =
     (isdigit c \<and> (if d = CHR ''_'' then digit_groups cs else digit_groups (d # cs)))"

definition py_int :: "string \<Rightarrow> py_error + int" where
  "py_int s =
     (let t = rev (dropWhile int_space (rev (dropWhile int_space s)));
          negative = (t \<noteq> [] \<and> hd t = CHR ''-'');
          body = (if t \<noteq> [] \<and> (hd t = CHR ''-'' \<or> hd t = CHR ''+'') then tl t else t)
      in if digit_groups body \<and> length (filter (\<lambda>c. c \<noteq> CHR ''_'') body) \<le> max_str_digits
         then (let v = int (digits_value (filter (\<lambda>c. c \<noteq> CHR ''_'') body) 0)
               in Inr (if negative then - v else v))
         else Inl ValueError)"

text \<open>
  \<^verbatim>\<open>float(s)\<close> on the literals the patterns of this program capture: an optional sign,
  digits, a point, digits. The value is the exact decimal number. On any other string
  the model raises \<^verbatim>\<open>ValueError\<close>; the program never passes one (see the theorems on
  the captured groups).
\<close>

definition py_float :: "string \<Rightarrow> py_error + real" where
  "py_float s =
     (let negative = (s \<noteq> [] \<and> hd s = CHR ''-'');
          body = (if s \<noteq> [] \<and> (hd s = CHR ''-'' \<or> hd s = CHR ''+'') then tl s else s);
          whole = takeWhile isdigit body;
          rest = dropWhile isdigit body
      in if whole \<noteq> [] \<and> rest \<noteq> [] \<and> hd rest = CHR ''.'' \<and> tl rest \<noteq> [] \<and>
            list_all isdigit (tl rest)
         then (let v = real (digits_value whole 0) +
                       real (digits_value (tl rest) 0) / 10 ^ length (tl rest)
               in Inr (if negative then - v else v))
         else Inl ValueError)"

section \<open>The regular expressions of \<^verbatim>\<open>re\<close> that the program uses\<close>

text \<open>
  A backtracking matcher in the order of Python's \<^verbatim>\<open>re\<close>: alternatives are tried from
  left to right, a greedy repetition tries one more round before it tries to go on, a
  lazy one tries to go on first. \<open>Bol\<close> is \<^verbatim>\<open>^\<close> under \<^verbatim>\<open>re.MULTILINE\<close>, \<open>AnyChar\<close> is
  \<^verbatim>\<open>.\<close> (anything but a newline), \<open>Group n\<close> is the \<open>n\<close>-th capturing group.
\<close>

datatype cclass = Lit char | Digit | Space | NonSpace | AnyChar | OneOf "char list"

datatype regex =
    Chr cclass
  | Eps
  | Seq regex regex
  | Star regex
  | StarLazy regex
  | Opt regex
  | Group nat regex
  | Bol

text \<open>\<^verbatim>\<open>r+\<close> is \<^verbatim>\<open>rr*\<close>; a word is the sequence of its letters.\<close>

definition Plus :: "regex \<Rightarrow> regex" where
  "Plus r = Seq r (Star r)"

fun seqs :: "regex list \<Rightarrow> regex" where
  "seqs [] = Eps"
| "seqs [r] = r"
| "seqs (r # rs) = Seq r (seqs rs)"

definition lits :: "string \<Rightarrow> regex" where
  "lits w = seqs (map (\<lambda>c. Chr (Lit c)) w)"

text \<open>Does a character belong to a class; \<open>ic\<close> is the flag \<^verbatim>\<open>re.IGNORECASE\<close>.\<close>

fun cmatch :: "bool \<Rightarrow> cclass \<Rightarrow> char \<Rightarrow> bool" where
  "cmatch ic (Lit x) c = (if ic then lower_char c = lower_char x else c = x)"
| "cmatch ic Digit c = isdigit c"
| "cmatch ic Space c = isspace c"
| "cmatch ic NonSpace c = (\<not> isspace c)"
| "cmatch ic AnyChar c = (c \<noteq> CHR 0x0A)"
| "cmatch ic (OneOf xs) c = (c \<in> set xs)"

text \<open>
  The captures recorded so far: group number, start and end, newest first. The matcher
  runs \<open>r\<close> on \<open>s\<close> from position \<open>i\<close> and hands the end position and the captures to the
  continuation \<open>k\<close>, which stands for the rest of the pattern; \<open>None\<close> makes it backtrack.
  A round of a repetition that consumes nothing is not repeated.
\<close>

type_synonym caps = "(nat \<times> nat \<times> nat) list"

function rmatch ::
  "bool \<Rightarrow> regex \<Rightarrow> string \<Rightarrow> nat \<Rightarrow> caps \<Rightarrow> (nat \<Rightarrow> caps \<Rightarrow> (nat \<times> caps) option)
     \<Rightarrow> (nat \<times> caps) option" where
  "rmatch ic (Chr c) s i cs k =
     (if i < length s \<and> cmatch ic c (s ! i) then k (Suc i) cs else None)"
| "rmatch ic Eps s i cs k = k i cs"
| "rmatch ic (Seq a b) s i cs k = rmatch ic a s i cs (\<lambda>j cs'. rmatch ic b s j cs' k)"
| "rmatch ic (Star r) s i cs k =
     (case rmatch ic r s i cs
             (\<lambda>j cs'. if i < j \<and> j \<le> length s then rmatch ic (Star r) s j cs' k else None) of
        Some m \<Rightarrow> Some m
      | None \<Rightarrow> k i cs)"
| "rmatch ic (StarLazy r) s i cs k =
     (case k i cs of
        Some m \<Rightarrow> Some m
      | None \<Rightarrow>
          rmatch ic r s i cs
            (\<lambda>j cs'. if i < j \<and> j \<le> length s then rmatch ic (StarLazy r) s j cs' k else None))"
| "rmatch ic (Opt r) s i cs k =
     (case rmatch ic r s i cs k of Some m \<Rightarrow> Some m | None \<Rightarrow> k i cs)"
| "rmatch ic (Group n r) s i cs k = rmatch ic r s i cs (\<lambda>j cs'. k j ((n, i, j) # cs'))"
| "rmatch ic Bol s i cs k =
     (if i = 0 \<or> (i \<le> length s \<and> s ! (i - 1) = CHR 0x0A) then k i cs else None)"
  by pat_completeness auto
termination
  by (relation "measures [\<lambda>(ic, r, s, i, cs, k). size r, \<lambda>(ic, r, s, i, cs, k). length s - i]")
    auto

text \<open>A match: where it starts, where it ends, its captures.\<close>

type_synonym rematch = "nat \<times> nat \<times> caps"

text \<open>\<^verbatim>\<open>re.search\<close>: the match at the first position, from \<open>i\<close> on, that has one.\<close>

function search_from :: "bool \<Rightarrow> regex \<Rightarrow> string \<Rightarrow> nat \<Rightarrow> rematch option" where
  "search_from ic r s i =
     (if length s < i then None
      else (case rmatch ic r s i [] (\<lambda>j cs. Some (j, cs)) of
              Some (j, cs) \<Rightarrow> Some (i, j, cs)
            | None \<Rightarrow> search_from ic r s (Suc i)))"
  by pat_completeness auto
termination
  by (relation "measure (\<lambda>(ic, r, s, i). Suc (length s) - i)") auto

definition re_search :: "bool \<Rightarrow> regex \<Rightarrow> string \<Rightarrow> rematch option" where
  "re_search ic r s = search_from ic r s 0"

text \<open>
  \<^verbatim>\<open>re.finditer\<close>: the matches from left to right, each search starting where the match
  before ended. No pattern of this program matches the empty string; after an empty
  match the search would go on one character further. A match never ends before the
  position its search started from, which the \<open>max\<close> makes plain to the termination proof.
\<close>

function finditer_from :: "bool \<Rightarrow> regex \<Rightarrow> string \<Rightarrow> nat \<Rightarrow> rematch list" where
  "finditer_from ic r s i =
     (if length s < i then []
      else (case search_from ic r s i of
              None \<Rightarrow> []
            | Some (st, e, cs) \<Rightarrow>
                (st, e, cs) # finditer_from ic r s (max (Suc i) (if e = st then Suc e else e))))"
  by pat_completeness auto
termination
  by (relation "measure (\<lambda>(ic, r, s, i). Suc (length s) - i)") auto

definition re_finditer :: "bool \<Rightarrow> regex \<Rightarrow> string \<Rightarrow> rematch list" where
  "re_finditer ic r s = finditer_from ic r s 0"

text \<open>\<^verbatim>\<open>m.group(n)\<close>: the text of the \<open>n\<close>-th group, \<open>None\<close> when the group took no part.\<close>

definition substr :: "string \<Rightarrow> nat \<Rightarrow> nat \<Rightarrow> string" where
  "substr s a b = take (b - a) (drop a s)"

definition match_group :: "string \<Rightarrow> rematch \<Rightarrow> nat \<Rightarrow> string option" where
  "match_group s m n =
     (case map_of (snd (snd m)) n of None \<Rightarrow> None | Some (a, b) \<Rightarrow> Some (substr s a b))"

text \<open>\<^verbatim>\<open>re.sub(pattern, '', s)\<close>: \<open>s\<close> without its matches; \<open>pos\<close> is where the text not
  yet copied starts.\<close>

fun remove_matches :: "string \<Rightarrow> nat \<Rightarrow> rematch list \<Rightarrow> string" where
  "remove_matches s pos [] = drop pos s"
| "remove_matches s pos ((st, e, cs) # ms) = substr s pos st @ remove_matches s e ms"

definition re_sub_empty :: "bool \<Rightarrow> regex \<Rightarrow> string \<Rightarrow> string" where
  "re_sub_empty ic r s = remove_matches s 0 (re_finditer ic r s)"

subsection \<open>The patterns\<close>

text \<open>\<^verbatim>\<open>[+-]?\d+\.\d+\<close>\<close>

definition float_re :: regex where
  "float_re = seqs [Opt (Chr (OneOf ''+-'')), Plus (Chr Digit), Chr (Lit CHR ''.''), Plus (Chr Digit)]"

text \<open>\<^verbatim>\<open>^\s*(\d+)\.\s+.*?(\S+(?:/\S+)+(?:\*?(?:\s+\S+/\S+\*?)*)?)\s+.*?Eq\.:\s*([+-]?\d+\.\d+)\<close>\<close>

definition move_pat :: regex where
  "move_pat = seqs
     [Bol, Star (Chr Space), Group 1 (Plus (Chr Digit)), Chr (Lit CHR ''.''), Plus (Chr Space),
      StarLazy (Chr AnyChar),
      Group 2 (seqs
        [Plus (Chr NonSpace),
         Plus (Seq (Chr (Lit CHR ''/'')) (Plus (Chr NonSpace))),
         Opt (Seq (Opt (Chr (Lit CHR ''*'')))
               (Star (seqs [Plus (Chr Space), Plus (Chr NonSpace), Chr (Lit CHR ''/''),
                            Plus (Chr NonSpace), Opt (Chr (Lit CHR ''*''))])))]),
      Plus (Chr Space), StarLazy (Chr AnyChar), lits ''Eq.:'', Star (Chr Space),
      Group 3 float_re]"

text \<open>\<^verbatim>\<open>\((\d+)\)\<close> and \<^verbatim>\<open>\(\d+\)\<close>\<close>

definition multiplier_pat :: regex where
  "multiplier_pat = seqs [Chr (Lit CHR ''(''), Group 1 (Plus (Chr Digit)), Chr (Lit CHR '')'')]"

definition multiplier_sub_pat :: regex where
  "multiplier_sub_pat = seqs [Chr (Lit CHR ''(''), Plus (Chr Digit), Chr (Lit CHR '')'')]"




subsection \<open>What a pattern can match\<close>

text \<open>
  The strings a pattern matches, whatever the order of the attempts; \<open>bodies n r\<close> are
  the patterns inside the groups numbered \<open>n\<close> of \<open>r\<close>, and \<open>mandatory n r\<close> says that
  every match of \<open>r\<close> goes through a group numbered \<open>n\<close>.
\<close>

inductive accepts :: "bool \<Rightarrow> regex \<Rightarrow> string \<Rightarrow> bool" where
  acc_Chr: "cmatch ic c x \<Longrightarrow> accepts ic (Chr c) [x]"
| acc_Eps: "accepts ic Eps []"
| acc_Seq: "accepts ic a u \<Longrightarrow> accepts ic b v \<Longrightarrow> accepts ic (Seq a b) (u @ v)"
| acc_Star_Nil: "accepts ic (Star r) []"
| acc_Star_more: "accepts ic r u \<Longrightarrow> accepts ic (Star r) v \<Longrightarrow> accepts ic (Star r) (u @ v)"
| acc_Lazy_Nil: "accepts ic (StarLazy r) []"
| acc_Lazy_more:
    "accepts ic r u \<Longrightarrow> accepts ic (StarLazy r) v \<Longrightarrow> accepts ic (StarLazy r) (u @ v)"
| acc_Opt_Nil: "accepts ic (Opt r) []"
| acc_Opt_one: "accepts ic r u \<Longrightarrow> accepts ic (Opt r) u"
| acc_Group: "accepts ic r u \<Longrightarrow> accepts ic (Group n r) u"
| acc_Bol: "accepts ic Bol []"

fun bodies :: "nat \<Rightarrow> regex \<Rightarrow> regex list" where
  "bodies n (Chr c) = []"
| "bodies n Eps = []"
| "bodies n (Seq a b) = bodies n a @ bodies n b"
| "bodies n (Star r) = bodies n r"
| "bodies n (StarLazy r) = bodies n r"
| "bodies n (Opt r) = bodies n r"
| "bodies n (Group g r) = (if g = n then [r] else []) @ bodies n r"
| "bodies n Bol = []"

fun mandatory :: "nat \<Rightarrow> regex \<Rightarrow> bool" where
  "mandatory n (Seq a b) = (mandatory n a \<or> mandatory n b)"
| "mandatory n (Group g r) = (g = n \<or> mandatory n r)"
| "mandatory n r = False"

text \<open>Captures that lie inside the string and hold a text their group can match.\<close>

definition good_caps :: "bool \<Rightarrow> regex \<Rightarrow> string \<Rightarrow> caps \<Rightarrow> bool" where
  "good_caps ic r s new \<longleftrightarrow>
     (\<forall>(n, a, b) \<in> set new.
        a \<le> b \<and> b \<le> length s \<and> (\<exists>body \<in> set (bodies n r). accepts ic body (substr s a b)))"

subsection \<open>The matcher with its continuation as a stack\<close>

text \<open>
  The same matcher with the rest of the pattern held as a stack of frames in place of a
  function: a pattern still to match, the check that a round of a repetition begun at
  \<open>i0\<close> consumed something before the repetition runs again, and the end of a group
  begun at \<open>st\<close>. The two matchers agree (lemma \<open>rmatch_run_stack\<close>); this one is the one
  that concrete inputs are evaluated with.
\<close>

datatype frame = Match regex | Progress nat regex | EndGroup nat nat

fun weight :: "regex \<Rightarrow> nat" where
  "weight (Chr c) = 1"
| "weight Eps = 1"
| "weight (Seq a b) = 1 + weight a + weight b"
| "weight (Star r) = 2 + weight r"
| "weight (StarLazy r) = 2 + weight r"
| "weight (Opt r) = 1 + weight r"
| "weight (Group n r) = 2 + weight r"
| "weight Bol = 1"

fun frame_weight :: "nat \<Rightarrow> frame \<Rightarrow> nat" where
  "frame_weight i (Match r) = weight r"
| "frame_weight i (Progress i0 r) = (if i0 < i then 1 + weight r else 0)"
| "frame_weight i (EndGroup n st) = 1"

definition stack_weight :: "nat \<Rightarrow> frame list \<Rightarrow> nat" where
  "stack_weight i k = sum_list (map (frame_weight i) k)"

function run_stack :: "bool \<Rightarrow> frame list \<Rightarrow> string \<Rightarrow> nat \<Rightarrow> caps \<Rightarrow> (nat \<times> caps) option" where
  "run_stack ic [] s i cs = Some (i, cs)"
| "run_stack ic (Match (Chr c) # k) s i cs =
     (if i < length s \<and> cmatch ic c (s ! i) then run_stack ic k s (Suc i) cs else None)"
| "run_stack ic (Match Eps # k) s i cs = run_stack ic k s i cs"
| "run_stack ic (Match (Seq a b) # k) s i cs = run_stack ic (Match a # Match b # k) s i cs"
| "run_stack ic (Match (Star r) # k) s i cs =
     (case run_stack ic (Match r # Progress i (Star r) # k) s i cs of
        Some m \<Rightarrow> Some m
      | None \<Rightarrow> run_stack ic k s i cs)"
| "run_stack ic (Match (StarLazy r) # k) s i cs =
     (case run_stack ic k s i cs of
        Some m \<Rightarrow> Some m
      | None \<Rightarrow> run_stack ic (Match r # Progress i (StarLazy r) # k) s i cs)"
| "run_stack ic (Match (Opt r) # k) s i cs =
     (case run_stack ic (Match r # k) s i cs of Some m \<Rightarrow> Some m | None \<Rightarrow> run_stack ic k s i cs)"
| "run_stack ic (Match (Group n r) # k) s i cs = run_stack ic (Match r # EndGroup n i # k) s i cs"
| "run_stack ic (Match Bol # k) s i cs =
     (if i = 0 \<or> (i \<le> length s \<and> s ! (i - 1) = CHR 0x0A) then run_stack ic k s i cs else None)"
| "run_stack ic (Progress i0 r # k) s i cs =
     (if i0 < i \<and> i \<le> length s then run_stack ic (Match r # k) s i cs else None)"
| "run_stack ic (EndGroup n st # k) s i cs = run_stack ic k s i ((n, st, i) # cs)"
  by pat_completeness auto
termination
  by (relation "measures [\<lambda>(ic, k, s, i, cs). length s - i,
                          \<lambda>(ic, k, s, i, cs). stack_weight i k]")
    (auto simp add: stack_weight_def)

section \<open>\<^verbatim>\<open>GnuBgEngine._parse_notation\<close>\<close>

text \<open>Sequencing of steps that may raise: the first error ends the computation.\<close>

definition bind :: "py_error + 'a \<Rightarrow> ('a \<Rightarrow> py_error + 'b) \<Rightarrow> py_error + 'b" where
  "bind x f = (case x of Inl e \<Rightarrow> Inl e | Inr v \<Rightarrow> f v)"

text \<open>\<^verbatim>\<open>int(m.group(n))\<close> and \<^verbatim>\<open>float(m.group(n))\<close>; \<^verbatim>\<open>int(None)\<close> and
  \<^verbatim>\<open>float(None)\<close> raise \<^verbatim>\<open>TypeError\<close>, held here as \<open>ValueError\<close>.\<close>

definition int_group :: "string \<Rightarrow> rematch \<Rightarrow> nat \<Rightarrow> py_error + int" where
  "int_group s m n = (case match_group s m n of None \<Rightarrow> Inl ValueError | Some g \<Rightarrow> py_int g)"

definition float_group :: "string \<Rightarrow> rematch \<Rightarrow> nat \<Rightarrow> py_error + real" where
  "float_group s m n = (case match_group s m n of None \<Rightarrow> Inl ValueError | Some g \<Rightarrow> py_float g)"

text \<open>
  The body of the loop over adjacent segments: the move from segment \<open>i\<close> to segment
  \<open>i + 1\<close>, or the \<^verbatim>\<open>ValueError\<close> of \<^verbatim>\<open>int()\<close>.
\<close>

definition parse_pair :: "string \<Rightarrow> string \<Rightarrow> py_error + MoveResponse" where
  "parse_pair seg_from seg_to =
     (let from_str = strip seg_from;
          to_str = strip seg_to;
          segment_hit = (CHR ''*'' \<in> set to_str);
          from_str = filter (\<lambda>c. c \<noteq> CHR ''*'') from_str;
          to_str = filter (\<lambda>c. c \<noteq> CHR ''*'') to_str
      in bind (if lower from_str = ''bar'' then Inr 0 else py_int from_str) (\<lambda>from_pt.
           let bear_off = (lower to_str = ''off'')
           in if bear_off then
                Inr \<lparr>from_point = from_pt, to_point = 0, die_used = from_pt,
                     is_hit = segment_hit, is_bear_off = bear_off\<rparr>
              else
                bind (py_int to_str) (\<lambda>to_pt.
                  Inr \<lparr>from_point = from_pt, to_point = to_pt, die_used = \<bar>from_pt - to_pt\<bar>,
                       is_hit = segment_hit, is_bear_off = bear_off\<rparr>)))"

text \<open>\<^verbatim>\<open>for i in range(len(segments) - 1)\<close>, each move appended \<open>count\<close> times; the list
  grows as long as the count asks, memory being no limit here.\<close>

fun segments_loop :: "string list \<Rightarrow> int \<Rightarrow> MoveResponse list \<Rightarrow> py_error + MoveResponse list" where
  "segments_loop (a # b # segs) count moves_acc =
     bind (parse_pair a b) (\<lambda>m.
       segments_loop (b # segs) count (moves_acc @ replicate (nat count) m))"
| "segments_loop segs count moves_acc = Inr moves_acc"

text \<open>The body of \<^verbatim>\<open>for part in notation.split()\<close>.\<close>

definition parse_part :: "string \<Rightarrow> MoveResponse list \<Rightarrow> py_error + MoveResponse list" where
  "parse_part part moves_acc =
     bind (case re_search False multiplier_pat part of
             None \<Rightarrow> Inr 1
           | Some multiplier_match \<Rightarrow> int_group part multiplier_match 1) (\<lambda>count.
       let part = re_sub_empty False multiplier_sub_pat part;
           segments = split_on CHR ''/'' part []
       in if length segments \<ge> 2 then segments_loop segments count moves_acc
          else Inr moves_acc)"

fun parts_loop :: "string list \<Rightarrow> MoveResponse list \<Rightarrow> py_error + MoveResponse list" where
  "parts_loop [] moves_acc = Inr moves_acc"
| "parts_loop (part # parts) moves_acc =
     bind (parse_part part moves_acc) (\<lambda>moves_acc. parts_loop parts moves_acc)"

definition parse_notation :: "string \<Rightarrow> py_error + PlayResponse" where
  "parse_notation notation =
     bind (parts_loop (split_ws notation []) []) (\<lambda>parsed.
       Inr \<lparr>moves = post_process parsed [], notation_str = notation\<rparr>)"

section \<open>\<^verbatim>\<open>GnuBgEngine._parse_evaluation\<close>\<close>

text \<open>The body of \<^verbatim>\<open>for m in move_pat.finditer(output)\<close>; the win probability of a
  \<^verbatim>\<open>RankedPlay\<close> defaults to 0.5.\<close>

definition parse_match :: "string \<Rightarrow> rematch \<Rightarrow> RankedPlay list \<Rightarrow> py_error + RankedPlay list" where
  "parse_match output m plays =
     bind (int_group output m 1) (\<lambda>rank_no.
     bind (case match_group output m 2 of None \<Rightarrow> Inl ValueError | Some g \<Rightarrow> Inr (strip g))
       (\<lambda>notation.
     bind (float_group output m 3) (\<lambda>eq.
     bind (parse_notation notation) (\<lambda>parsed_play.
       Inr (plays @
         [\<lparr>rank = rank_no, play = parsed_play, equity = eq, win_probability = 1 / 2,
           equity_difference =
             (if rank_no = 1 then 0
              else if plays \<noteq> [] then equity (hd plays) - eq else 0)\<rparr>])))))"

fun matches_loop :: "string \<Rightarrow> rematch list \<Rightarrow> RankedPlay list \<Rightarrow> py_error + RankedPlay list" where
  "matches_loop output [] plays = Inr plays"
| "matches_loop output (m # ms) plays =
     bind (parse_match output m plays) (\<lambda>plays. matches_loop output ms plays)"

definition no_move_entry :: RankedPlay where
  "no_move_entry =
     \<lparr>rank = 1, play = \<lparr>moves = [], notation_str = ''No move''\<rparr>, equity = 0,
      win_probability = 1 / 2, equity_difference = 0\<rparr>"

definition parse_evaluation :: "string \<Rightarrow> py_error + EvaluateResponse" where
  "parse_evaluation output =
     bind (matches_loop output (re_finditer False move_pat output) []) (\<lambda>plays.
       let plays = (if plays = [] then plays @ [no_move_entry] else plays)
       in Inr \<lparr>best_play = play (hd plays), best_equity = equity (hd plays),
               all_plays = plays\<rparr>)"

section \<open>\<^verbatim>\<open>GnuBgEngine._parse_cube\<close>\<close>





section \<open>\<^verbatim>\<open>GnuBgEngine._mock_evaluate\<close>\<close>

record EvaluateRequest =
  points :: "int list"
  bar :: "int list"
  borne_off :: "int list"
  dice :: "int list"
  player :: string
  ply :: int

text \<open>The constraints that the request model declares: the lengths of the four lists
  and the range of \<^verbatim>\<open>ply\<close>.\<close>

definition wf_request :: "EvaluateRequest \<Rightarrow> bool" where
  "wf_request req \<longleftrightarrow>
     length (points req) = 24 \<and> length (bar req) = 2 \<and> length (borne_off req) = 2 \<and>
     length (dice req) = 2 \<and> 0 \<le> ply req \<and> ply req \<le> 4"

text \<open>
  The values that the calls of \<^verbatim>\<open>random\<close> return, in the order of the calls:
  \<^verbatim>\<open>random.choice(seq)\<close> returns the element of \<open>seq\<close> at some index below its length,
  here \<open>pick mod length seq\<close>; \<^verbatim>\<open>random.uniform\<close> returns some number.
\<close>

record random_source =
  pick_src :: nat
  base_equity :: real
  pick_src2 :: nat
  equity_drop :: real
  alt_difference :: real

definition choice :: "nat \<Rightarrow> int list \<Rightarrow> py_error + int" where
  "choice pick seq = (if seq = [] then Inl IndexError else Inr (seq ! (pick mod length seq)))"

text \<open>\<^verbatim>\<open>MoveResponse(from_point=a, to_point=b, die_used=d)\<close> with the defaults of the flags.\<close>

definition plain_move :: "int \<Rightarrow> int \<Rightarrow> int \<Rightarrow> MoveResponse" where
  "plain_move a b d =
     \<lparr>from_point = a, to_point = b, die_used = d, is_hit = False, is_bear_off = False\<rparr>"

definition occupied_points :: "EvaluateRequest \<Rightarrow> int list" where
  "occupied_points req =
     map (\<lambda>i. int i + 1)
       (filter (\<lambda>i. (player req = ''white'' \<and> points req ! i > 0) \<or>
                     (player req = ''black'' \<and> points req ! i < 0)) [0..<24])"

text \<open>The alternative play, added when more than one point is occupied.\<close>

definition mock_alternative ::
  "random_source \<Rightarrow> int list \<Rightarrow> int \<Rightarrow> int \<Rightarrow> int \<Rightarrow> py_error + RankedPlay list" where
  "mock_alternative rnd occupied src d1 direction =
     (if length occupied > 1 then
        bind (choice (pick_src2 rnd) (filter (\<lambda>p. p \<noteq> src) occupied)) (\<lambda>src2.
          let d2_dest = src2 + d1 * direction
          in if 1 \<le> d2_dest \<and> d2_dest \<le> 24 then
               Inr [\<lparr>rank = 2,
                     play = \<lparr>moves = [plain_move src2 d2_dest d1],
                             notation_str = str_int src2 @ ''/'' @ str_int d2_dest\<rparr>,
                     equity = base_equity rnd - equity_drop rnd, win_probability = 1 / 2,
                     equity_difference = alt_difference rnd\<rparr>]
             else Inr [])
      else Inr [])"

definition mock_evaluate :: "random_source \<Rightarrow> EvaluateRequest \<Rightarrow> py_error + EvaluateResponse" where
  "mock_evaluate rnd req =
     (if length (dice req) \<noteq> 2 then Inl ValueError
      else if length (points req) < 24 then Inl IndexError
      else
        (let d1 = dice req ! 0; d2 = dice req ! 1;
             direction = (if player req = ''white'' then - 1 else 1);
             occupied = occupied_points req
         in bind
              (if occupied \<noteq> [] then
                 bind (choice (pick_src rnd) occupied) (\<lambda>src.
                   let dest1 = src + d1 * direction;
                       dest2 = src + d2 * direction;
                       mock_moves =
                         (if 1 \<le> dest1 \<and> dest1 \<le> 24 then [plain_move src dest1 d1] else []) @
                         (if 1 \<le> dest2 \<and> dest2 \<le> 24 then [plain_move src dest2 d2] else []);
                       first_play =
                         \<lparr>moves = mock_moves,
                          notation_str = str_int src @ ''/'' @ str_int dest1 @ '' '' @
                                         str_int src @ ''/'' @ str_int dest2\<rparr>
                   in bind (mock_alternative rnd occupied src d1 direction) (\<lambda>alt.
                        Inr (\<lparr>rank = 1, play = first_play, equity = base_equity rnd,
                               win_probability = 1 / 2, equity_difference = 0\<rparr> # alt)))
               else Inr [])
              (\<lambda>mock_plays.
                 let mock_plays = (if mock_plays = [] then [no_move_entry] else mock_plays)
                 in Inr \<lparr>best_play = play (hd mock_plays), best_equity = equity (hd mock_plays),
                         all_plays = mock_plays\<rparr>)))"

section \<open>\<^verbatim>\<open>GnuBgEngine.evaluate\<close>\<close>

text \<open>
  The subprocess and its channel are the environment: a function from the commands
  handed to \<^verbatim>\<open>_send\<close> so far, the last one being the one sent now, to what that call
  of \<^verbatim>\<open>_send\<close> does: it returns the text read (a read that times out returns the text
  read until then, which may be empty) or raises. The state threaded through a request
  is the list of the commands handed to \<^verbatim>\<open>_send\<close>. Logging is left out.
\<close>

type_synonym engine = "string list \<Rightarrow> py_error + string"

type_synonym 'a io = "string list \<Rightarrow> (py_error + 'a) \<times> string list"

definition io_bind :: "'a io \<Rightarrow> ('a \<Rightarrow> 'b io) \<Rightarrow> 'b io" where
  "io_bind m f trace =
     (case m trace of (Inl e, trace') \<Rightarrow> (Inl e, trace') | (Inr v, trace') \<Rightarrow> f v trace')"

definition lift :: "py_error + 'a \<Rightarrow> 'a io" where
  "lift x trace = (x, trace)"

definition send :: "engine \<Rightarrow> string \<Rightarrow> string io" where
  "send eng cmd trace = (eng (trace @ [cmd]), trace @ [cmd])"

text \<open>The commands, as the f-strings of \<^verbatim>\<open>evaluate\<close> build them.\<close>

definition cmd_set_plies :: "EvaluateRequest \<Rightarrow> string" where
  "cmd_set_plies req = ''set evaluation chequer eval plies '' @ str_int (ply req)"

definition cmd_new_game :: string where
  "cmd_new_game = ''new game''"

definition cmd_set_board :: "string \<Rightarrow> string" where
  "cmd_set_board pos_id = ''set board '' @ pos_id"

definition cmd_set_turn :: "EvaluateRequest \<Rightarrow> string" where
  "cmd_set_turn req =
     (let turn = (if player req = ''white'' then 0 else 1) in ''set turn '' @ str_int turn)"

definition cmd_show_board :: string where
  "cmd_show_board = ''show board''"

definition cmd_set_dice :: "EvaluateRequest \<Rightarrow> string" where
  "cmd_set_dice req = ''set dice '' @ str_int (dice req ! 0) @ '' '' @ str_int (dice req ! 1)"

definition cmd_hint :: string where
  "cmd_hint = ''hint''"

text \<open>The body of the \<^verbatim>\<open>try\<close> statement. Reading \<^verbatim>\<open>req.dice[1]\<close> of a shorter
  list raises \<^verbatim>\<open>IndexError\<close>.\<close>

definition try_body :: "engine \<Rightarrow> random_source \<Rightarrow> EvaluateRequest \<Rightarrow> EvaluateResponse io" where
  "try_body eng rnd req =
     io_bind (send eng (cmd_set_plies req)) (\<lambda>_.
     io_bind (send eng cmd_new_game) (\<lambda>_.
     io_bind (lift (make_position_id (points req) (bar req))) (\<lambda>pos_id.
     io_bind (send eng (cmd_set_board pos_id)) (\<lambda>set_result.
       if contains ''Illegal'' set_result then lift (mock_evaluate rnd req)
       else
         io_bind (send eng (cmd_set_turn req)) (\<lambda>_.
         io_bind (send eng cmd_show_board) (\<lambda>board_output.
         io_bind (lift (if length (dice req) < 2 then Inl IndexError
                        else Inr (cmd_set_dice req))) (\<lambda>set_dice.
         io_bind (send eng set_dice) (\<lambda>_.
         io_bind (send eng cmd_hint) (\<lambda>output.
           if output = [] \<or> \<not> contains ''Eq.:'' output then lift (mock_evaluate rnd req)
           else
             io_bind (lift (parse_evaluation output)) (\<lambda>result.
               lift (Inr (if player req = ''black'' then transform_for_black result
                          else result))))))))))))"

text \<open>
  \<open>version\<close> is the attribute \<^verbatim>\<open>self.version\<close>. The lock is taken after the test for
  mock mode and held to the end of the request; one request runs here, so the lock is not
  part of the state. An exception of the \<^verbatim>\<open>try\<close> body is answered by the mock result.
\<close>

definition evaluate ::
  "string \<Rightarrow> engine \<Rightarrow> random_source \<Rightarrow> EvaluateRequest \<Rightarrow> EvaluateResponse io" where
  "evaluate version eng rnd req trace =
     (if version = ''mock'' then (mock_evaluate rnd req, trace)
      else if length (bar req) < 2 \<or> length (borne_off req) < 2 then (Inl IndexError, trace)
      else if white_count (points req) (bar req) (borne_off req) \<noteq> 15 \<or>
              black_count (points req) (bar req) (borne_off req) \<noteq> 15
        then (mock_evaluate rnd req, trace)
      else (case try_body eng rnd req trace of
              (Inl e, trace') \<Rightarrow> (mock_evaluate rnd req, trace')
            | (Inr result, trace') \<Rightarrow> (Inr result, trace')))"

text \<open>The seven commands of a request that runs to its end, in their order.\<close>

definition evaluate_commands :: "EvaluateRequest \<Rightarrow> string \<Rightarrow> string list" where
  "evaluate_commands req pos_id =
     [cmd_set_plies req, cmd_new_game, cmd_set_board pos_id, cmd_set_turn req,
      cmd_show_board, cmd_set_dice req, cmd_hint]"

text \<open>An engine that answers the hint command of the opening position and returns its
  prompt to every other command; requests to run on it.\<close>

definition example_engine :: engine where
  "example_engine history =
     (if history \<noteq> [] \<and> last history = ''hint''
      then Inr ''1. Cubeful 0-ply 24/21 13/10*  Eq.: +0.123''
      else Inr ''(gnubg) '')"

definition example_request :: EvaluateRequest where
  "example_request =
     \<lparr>points = opening_points, bar = [0, 0], borne_off = [0, 0], dice = [3, 1],
      player = ''white'', ply = 0\<rparr>"

definition example_random :: random_source where
  "example_random =
     \<lparr>pick_src = 0, base_equity = 1 / 10, pick_src2 = 0, equity_drop = 1 / 20,
      alt_difference = 1 / 20\<rparr>"


section \<open>The matcher and the language of a pattern\<close>

lemma substr_self: "substr s i i = []"
  by (simp add: substr_def)

lemma substr_one: "i < length s \<Longrightarrow> substr s i (Suc i) = [s ! i]"
  by (simp add: substr_def take_Suc_conv_app_nth [where i = 0, simplified] hd_drop_conv_nth
      take_Suc)

lemma substr_append:
  assumes "i \<le> j" "j \<le> l"
  shows "substr s i l = substr s i j @ substr s j l"
proof -
  have "take (l - i) (drop i s) = take (j - i) (drop i s) @ take (l - j) (drop (j - i) (drop i s))"
    using assms take_add [of "j - i" "l - j" "drop i s"] by simp
  then show ?thesis using assms by (simp add: substr_def)
qed

lemma good_caps_Nil: "good_caps ic r s []"
  by (simp add: good_caps_def)

lemma good_caps_append:
  "good_caps ic r s xs \<Longrightarrow> good_caps ic r s ys \<Longrightarrow> good_caps ic r s (xs @ ys)"
  by (auto simp add: good_caps_def)

lemma good_caps_mono:
  assumes "good_caps ic r s new" and "\<And>n. set (bodies n r) \<subseteq> set (bodies n r')"
  shows "good_caps ic r' s new"
  using assms unfolding good_caps_def by fast

lemma rmatch_sound:
  "rmatch ic r s i cs k = Some m \<Longrightarrow> i \<le> length s \<Longrightarrow>
   \<exists>j new. k j (new @ cs) = Some m \<and> i \<le> j \<and> j \<le> length s \<and>
     accepts ic r (substr s i j) \<and> good_caps ic r s new \<and>
     (\<forall>n. mandatory n r \<longrightarrow> n \<in> fst ` set new)"
proof (induction ic r s i cs k arbitrary: m rule: rmatch.induct)
  case (1 ic c s i cs k)
  then have i: "i < length s" and c: "cmatch ic c (s ! i)" and k: "k (Suc i) cs = Some m"
    by (simp_all split: if_splits)
  have "accepts ic (Chr c) (substr s i (Suc i))"
    using c by (simp add: substr_one [OF i] acc_Chr)
  then show ?case using i k good_caps_Nil [of ic "Chr c" s]
    by (intro exI [of _ "Suc i"] exI [of _ "[]"]) simp
next
  case (2 ic s i cs k)
  then show ?case using good_caps_Nil [of ic Eps s]
    by (intro exI [of _ i] exI [of _ "[]"]) (simp add: substr_self acc_Eps)
next
  case (3 ic a b s i cs k)
  from "3.prems" have "rmatch ic a s i cs (\<lambda>j cs'. rmatch ic b s j cs' k) = Some m" by simp
  from "3.IH"(2) [OF this "3.prems"(2)] obtain j1 new1 where
    1: "rmatch ic b s j1 (new1 @ cs) k = Some m" "i \<le> j1" "j1 \<le> length s"
       "accepts ic a (substr s i j1)" "good_caps ic a s new1"
       "\<forall>n. mandatory n a \<longrightarrow> n \<in> fst ` set new1"
    by blast
  from "3.IH"(1) [OF 1(1) 1(3)] obtain j2 new2 where
    2: "k j2 (new2 @ new1 @ cs) = Some m" "j1 \<le> j2" "j2 \<le> length s"
       "accepts ic b (substr s j1 j2)" "good_caps ic b s new2"
       "\<forall>n. mandatory n b \<longrightarrow> n \<in> fst ` set new2"
    by blast
  have acc: "accepts ic (Seq a b) (substr s i j2)"
    using acc_Seq [OF 1(4) 2(4)] substr_append [OF 1(2) 2(2), of s] by simp
  have g: "good_caps ic (Seq a b) s (new2 @ new1)"
    by (intro good_caps_append good_caps_mono [OF 1(5)] good_caps_mono [OF 2(5)]) simp_all
  have mand: "\<forall>n. mandatory n (Seq a b) \<longrightarrow> n \<in> fst ` set (new2 @ new1)"
    using 1(6) 2(6) by auto
  show ?case
    using 2(1) 1(2) 2(2) 2(3) acc g mand
    by (intro exI [of _ j2] exI [of _ "new2 @ new1"]) simp
next
  case (4 ic r s i cs k)
  let ?K = "\<lambda>j cs'. if i < j \<and> j \<le> length s then rmatch ic (Star r) s j cs' k else None"
  show ?case
  proof (cases "rmatch ic r s i cs ?K")
    case None
    with "4.prems" have "k i cs = Some m" by simp
    then show ?thesis using "4.prems"(2) good_caps_Nil [of ic "Star r" s]
      by (intro exI [of _ i] exI [of _ "[]"]) (simp add: substr_self acc_Star_Nil)
  next
    case (Some m')
    with "4.prems" have inner: "rmatch ic r s i cs ?K = Some m" by simp
    from "4.IH"(2) [OF inner "4.prems"(2)] obtain j1 new1 where
      1: "?K j1 (new1 @ cs) = Some m" "i \<le> j1" "j1 \<le> length s"
         "accepts ic r (substr s i j1)" "good_caps ic r s new1"
      by blast
    from 1(1) have step: "i < j1 \<and> j1 \<le> length s"
      and rest: "rmatch ic (Star r) s j1 (new1 @ cs) k = Some m"
      by (simp_all split: if_splits)
    from "4.IH"(1) [OF step rest] step obtain j2 new2 where
      2: "k j2 (new2 @ new1 @ cs) = Some m" "j1 \<le> j2" "j2 \<le> length s"
         "accepts ic (Star r) (substr s j1 j2)" "good_caps ic (Star r) s new2"
      by auto
    have acc: "accepts ic (Star r) (substr s i j2)"
      using acc_Star_more [OF 1(4) 2(4)] substr_append [OF 1(2) 2(2), of s] by simp
    have g: "good_caps ic (Star r) s (new2 @ new1)"
      by (intro good_caps_append 2(5) good_caps_mono [OF 1(5)]) simp
    show ?thesis
      using 2(1) 1(2) 2(2) 2(3) acc g
      by (intro exI [of _ j2] exI [of _ "new2 @ new1"]) simp
  qed
next
  case (5 ic r s i cs k)
  let ?K = "\<lambda>j cs'. if i < j \<and> j \<le> length s then rmatch ic (StarLazy r) s j cs' k else None"
  show ?case
  proof (cases "k i cs")
    case (Some m')
    with "5.prems" have "k i cs = Some m" by simp
    then show ?thesis using "5.prems"(2) good_caps_Nil [of ic "StarLazy r" s]
      by (intro exI [of _ i] exI [of _ "[]"]) (simp add: substr_self acc_Lazy_Nil)
  next
    case None
    with "5.prems" have inner: "rmatch ic r s i cs ?K = Some m" by simp
    from "5.IH"(2) [OF None inner "5.prems"(2)] obtain j1 new1 where
      1: "?K j1 (new1 @ cs) = Some m" "i \<le> j1" "j1 \<le> length s"
         "accepts ic r (substr s i j1)" "good_caps ic r s new1"
      by blast
    from 1(1) have step: "i < j1 \<and> j1 \<le> length s"
      and rest: "rmatch ic (StarLazy r) s j1 (new1 @ cs) k = Some m"
      by (simp_all split: if_splits)
    from "5.IH"(1) [OF None step rest] step obtain j2 new2 where
      2: "k j2 (new2 @ new1 @ cs) = Some m" "j1 \<le> j2" "j2 \<le> length s"
         "accepts ic (StarLazy r) (substr s j1 j2)" "good_caps ic (StarLazy r) s new2"
      by auto
    have acc: "accepts ic (StarLazy r) (substr s i j2)"
      using acc_Lazy_more [OF 1(4) 2(4)] substr_append [OF 1(2) 2(2), of s] by simp
    have g: "good_caps ic (StarLazy r) s (new2 @ new1)"
      by (intro good_caps_append 2(5) good_caps_mono [OF 1(5)]) simp
    show ?thesis
      using 2(1) 1(2) 2(2) 2(3) acc g
      by (intro exI [of _ j2] exI [of _ "new2 @ new1"]) simp
  qed
next
  case (6 ic r s i cs k)
  show ?case
  proof (cases "rmatch ic r s i cs k")
    case None
    with "6.prems" have "k i cs = Some m" by simp
    then show ?thesis using "6.prems"(2) good_caps_Nil [of ic "Opt r" s]
      by (intro exI [of _ i] exI [of _ "[]"]) (simp add: substr_self acc_Opt_Nil)
  next
    case (Some m')
    with "6.prems" have "rmatch ic r s i cs k = Some m" by simp
    from "6.IH" [OF this "6.prems"(2)] obtain j new where
      1: "k j (new @ cs) = Some m" "i \<le> j" "j \<le> length s"
         "accepts ic r (substr s i j)" "good_caps ic r s new"
      by blast
    have g: "good_caps ic (Opt r) s new"
      by (rule good_caps_mono [OF 1(5)]) simp
    show ?thesis
      using 1(1,2,3) acc_Opt_one [OF 1(4)] g
      by (intro exI [of _ j] exI [of _ new]) simp
  qed
next
  case (7 ic n r s i cs k)
  from "7.prems" have "rmatch ic r s i cs (\<lambda>j cs'. k j ((n, i, j) # cs')) = Some m" by simp
  from "7.IH" [OF this "7.prems"(2)] obtain j new where
    1: "k j ((n, i, j) # new @ cs) = Some m" "i \<le> j" "j \<le> length s"
       "accepts ic r (substr s i j)" "good_caps ic r s new"
       "\<forall>g. mandatory g r \<longrightarrow> g \<in> fst ` set new"
    by blast
  have "good_caps ic (Group n r) s new"
    by (rule good_caps_mono [OF 1(5)]) simp
  then have g: "good_caps ic (Group n r) s ((n, i, j) # new)"
    using 1(2,3,4) by (simp add: good_caps_def)
  have mand: "\<forall>g. mandatory g (Group n r) \<longrightarrow> g \<in> fst ` set ((n, i, j) # new)"
    using 1(6) by auto
  show ?case
    using 1(1,2,3) acc_Group [OF 1(4)] g mand
    by (intro exI [of _ j] exI [of _ "(n, i, j) # new"]) simp
next
  case (8 ic s i cs k)
  then have "k i cs = Some m" by (simp split: if_splits)
  then show ?case using "8.prems"(2) good_caps_Nil [of ic Bol s]
    by (intro exI [of _ i] exI [of _ "[]"]) (simp add: substr_self acc_Bol)
qed

text \<open>A match is sound when it lies in the string, its text is in the language of the
  pattern, and its captures are good and cover the mandatory groups.\<close>

lemma search_from_sound:
  "search_from ic r s i = Some (st, e, cs) \<Longrightarrow>
   i \<le> st \<and> st \<le> e \<and> e \<le> length s \<and> accepts ic r (substr s st e) \<and> good_caps ic r s cs \<and>
   (\<forall>n. mandatory n r \<longrightarrow> n \<in> fst ` set cs)"
proof (induction ic r s i rule: search_from.induct)
  case (1 ic r s i)
  from "1.prems" have le: "i \<le> length s"
    by (subst (asm) search_from.simps) (simp split: if_splits)
  show ?case
  proof (cases "rmatch ic r s i [] (\<lambda>j cs. Some (j, cs))")
    case None
    with "1.prems" le have "search_from ic r s (Suc i) = Some (st, e, cs)"
      by (subst (asm) search_from.simps) simp
    from "1.IH" [OF _ None this] le show ?thesis by simp
  next
    case (Some m)
    with "1.prems" le have m: "m = (e, cs)" and st: "st = i"
      by (subst (asm) search_from.simps, simp split: prod.splits)+
    from rmatch_sound [OF Some le] obtain j new where
      "Some (j, new @ []) = Some m" "i \<le> j" "j \<le> length s"
      "accepts ic r (substr s i j)" "good_caps ic r s new"
      "\<forall>n. mandatory n r \<longrightarrow> n \<in> fst ` set new"
      by blast
    with m st show ?thesis by simp
  qed
qed


lemma finditer_from_sound:
  "(st, e, cs) \<in> set (finditer_from ic r s i) \<Longrightarrow>
   st \<le> e \<and> e \<le> length s \<and> accepts ic r (substr s st e) \<and> good_caps ic r s cs \<and>
   (\<forall>n. mandatory n r \<longrightarrow> n \<in> fst ` set cs)"
proof (induction ic r s i rule: finditer_from.induct)
  case (1 ic r s i)
  from "1.prems" have le: "\<not> length s < i"
    by (subst (asm) finditer_from.simps) (simp split: if_splits)
  show ?case
  proof (cases "search_from ic r s i")
    case None
    with "1.prems" le show ?thesis
      by (subst (asm) finditer_from.simps) simp
  next
    case (Some m)
    obtain st' e' cs' where m: "m = (st', e', cs')" by (cases m) auto
    from "1.prems" le Some m have
      "(st, e, cs) = (st', e', cs') \<or>
       (st, e, cs) \<in> set (finditer_from ic r s (max (Suc i) (if e' = st' then Suc e' else e')))"
      by (subst (asm) finditer_from.simps) simp
    then show ?thesis
    proof
      assume "(st, e, cs) = (st', e', cs')"
      with Some m search_from_sound [of ic r s i st e cs] show ?thesis by simp
    next
      assume "(st, e, cs) \<in> set (finditer_from ic r s (max (Suc i) (if e' = st' then Suc e' else e')))"
      from "1.IH" [OF le Some [unfolded m] refl refl this] show ?thesis .
    qed
  qed
qed

lemma re_finditer_sound:
  "(st, e, cs) \<in> set (re_finditer ic r s) \<Longrightarrow>
   st \<le> e \<and> e \<le> length s \<and> accepts ic r (substr s st e) \<and> good_caps ic r s cs \<and>
   (\<forall>n. mandatory n r \<longrightarrow> n \<in> fst ` set cs)"
  unfolding re_finditer_def by (rule finditer_from_sound)

text \<open>The text of a mandatory group is in the language of one of its bodies.\<close>

lemma group_mandatory:
  assumes "good_caps ic r s cs" and "n \<in> fst ` set cs"
  shows "\<exists>g. match_group s (st, e, cs) n = Some g \<and> (\<exists>body \<in> set (bodies n r). accepts ic body g)"
proof -
  from assms(2) obtain ab where "map_of cs n = Some ab"
    by (metis domD dom_map_of_conv_image_fst)
  moreover obtain a b where ab: "ab = (a, b)" by (cases ab) auto
  ultimately have lookup: "map_of cs n = Some (a, b)" by simp
  then have "(n, a, b) \<in> set cs" by (rule map_of_SomeD)
  with assms(1) have "\<exists>body \<in> set (bodies n r). accepts ic body (substr s a b)"
    unfolding good_caps_def by fast
  then show ?thesis using lookup by (simp add: match_group_def)
qed

section \<open>The captured numbers are numbers\<close>

inductive_cases accepts_ChrE: "accepts ic (Chr c) u"
inductive_cases accepts_SeqE: "accepts ic (Seq a b) u"
inductive_cases accepts_OptE: "accepts ic (Opt r) u"

lemma accepts_star_class:
  "accepts ic r u \<Longrightarrow> r = Star (Chr c) \<Longrightarrow> list_all (cmatch ic c) u"
proof (induction rule: accepts.induct)
  case (acc_Star_more ic r u v)
  then show ?case by (auto elim: accepts_ChrE)
qed simp_all

lemma accepts_plus_class:
  assumes "accepts ic (Plus (Chr c)) u"
  shows "u \<noteq> [] \<and> list_all (cmatch ic c) u"
proof -
  from assms obtain x v where "u = x @ v" "accepts ic (Chr c) x" "accepts ic (Star (Chr c)) v"
    unfolding Plus_def by (auto elim: accepts_SeqE)
  moreover from this obtain y where "x = [y]" "cmatch ic c y" by (auto elim: accepts_ChrE)
  ultimately show ?thesis using accepts_star_class [of ic "Star (Chr c)" v c] by simp
qed

lemma accepts_plus_digits:
  "accepts ic (Plus (Chr Digit)) u \<Longrightarrow> u \<noteq> [] \<and> list_all isdigit u"
  using accepts_plus_class [of ic Digit u] by (simp add: list_all_iff)

lemma index_of_Some: "index_of x xs = Some n \<Longrightarrow> n < length xs \<and> xs ! n = x"
proof (induction xs arbitrary: n)
  case Nil
  then show ?case by simp
next
  case (Cons y ys)
  then show ?case by (cases n) (auto split: if_splits)
qed

lemma lower_char_dot: "lower_char x = CHR ''.'' \<longleftrightarrow> x = CHR ''.''"
proof (cases "index_of x ''ABCDEFGHIJKLMNOPQRSTUVWXYZ''")
  case None
  then show ?thesis by (simp add: lower_char_def)
next
  case (Some n)
  from index_of_Some [OF Some] have n: "n < 26" and x: "x \<in> set ''ABCDEFGHIJKLMNOPQRSTUVWXYZ''"
    by (simp, metis nth_mem)
  from n have "''abcdefghijklmnopqrstuvwxyz'' ! n \<in> set ''abcdefghijklmnopqrstuvwxyz''"
    by (intro nth_mem) simp
  then have "''abcdefghijklmnopqrstuvwxyz'' ! n \<noteq> CHR ''.''" by auto
  moreover have "x \<noteq> CHR ''.''" using x by auto
  ultimately show ?thesis using Some by (simp add: lower_char_def)
qed

lemma cmatch_dot: "cmatch ic (Lit CHR ''.'') x \<longleftrightarrow> x = CHR ''.''"
proof -
  have "lower_char CHR ''.'' = CHR ''.''" by (simp add: lower_char_def)
  then show ?thesis using lower_char_dot [of x] by (cases ic) auto
qed

lemma digit_not_sign: "isdigit c \<Longrightarrow> c \<noteq> CHR ''-'' \<and> c \<noteq> CHR ''+'' \<and> c \<noteq> CHR ''.'' \<and> c \<noteq> CHR ''_''"
  by (auto simp add: isdigit_def)

lemma digit_not_space: "isdigit c \<Longrightarrow> \<not> int_space c"
  by (auto simp add: isdigit_def int_space_def)

text \<open>The shape of a text matched by \<^verbatim>\<open>[+-]?\d+\.\d+\<close>.\<close>

lemma accepts_float_re:
  assumes "accepts ic float_re g"
  shows "\<exists>sg w f. g = sg @ w @ CHR ''.'' # f \<and> (sg = [] \<or> sg = ''+'' \<or> sg = ''-'') \<and>
           w \<noteq> [] \<and> list_all isdigit w \<and> f \<noteq> [] \<and> list_all isdigit f"
proof -
  from assms obtain sg r1 where 1: "g = sg @ r1" "accepts ic (Opt (Chr (OneOf ''+-''))) sg"
      "accepts ic (Seq (Plus (Chr Digit)) (Seq (Chr (Lit CHR ''.'')) (Plus (Chr Digit)))) r1"
    unfolding float_re_def by (auto elim: accepts_SeqE)
  from 1(3) obtain w r2 where 2: "r1 = w @ r2" "accepts ic (Plus (Chr Digit)) w"
      "accepts ic (Seq (Chr (Lit CHR ''.'')) (Plus (Chr Digit))) r2"
    by (auto elim: accepts_SeqE)
  from 2(3) obtain d f where 3: "r2 = d @ f" "accepts ic (Chr (Lit CHR ''.'')) d"
      "accepts ic (Plus (Chr Digit)) f"
    by (auto elim: accepts_SeqE)
  from 3(2) have d: "d = ''.''"
    by (auto elim!: accepts_ChrE simp add: cmatch_dot simp del: cmatch.simps)
  from 1(2) have sg: "sg = [] \<or> sg = ''+'' \<or> sg = ''-''"
    by (auto elim!: accepts_OptE accepts_ChrE)
  show ?thesis
    using 1(1) 2(1) 3(1) d sg accepts_plus_digits [OF 2(2)] accepts_plus_digits [OF 3(3)]
    by (intro exI [of _ sg] exI [of _ w] exI [of _ f]) simp
qed

lemma takeWhile_digits: "list_all isdigit w \<Longrightarrow> takeWhile isdigit (w @ CHR ''.'' # f) = w"
  by (induction w) (simp_all add: isdigit_def)

lemma dropWhile_digits:
  "list_all isdigit w \<Longrightarrow> dropWhile isdigit (w @ CHR ''.'' # f) = CHR ''.'' # f"
  by (induction w) (simp_all add: isdigit_def)

lemma py_float_unsigned:
  assumes "w \<noteq> []" "list_all isdigit w" "f \<noteq> []" "list_all isdigit f"
  shows "\<exists>x. py_float (w @ CHR ''.'' # f) = Inr x"
proof -
  from assms(1,2) have "isdigit (hd w)" by (cases w) simp_all
  then have hd: "hd (w @ CHR ''.'' # f) \<noteq> CHR ''-''" "hd (w @ CHR ''.'' # f) \<noteq> CHR ''+''"
    using assms(1) digit_not_sign by (simp_all add: hd_append)
  show ?thesis
    unfolding py_float_def Let_def
    using hd assms by (simp add: takeWhile_digits dropWhile_digits)
qed

lemma py_float_signed:
  assumes "w \<noteq> []" "list_all isdigit w" "f \<noteq> []" "list_all isdigit f"
    and "c = CHR ''-'' \<or> c = CHR ''+''"
  shows "\<exists>x. py_float (c # w @ CHR ''.'' # f) = Inr x"
  unfolding py_float_def Let_def
  using assms by (simp add: takeWhile_digits dropWhile_digits)

lemma py_float_accepts:
  assumes "accepts ic float_re g"
  shows "\<exists>x. py_float g = Inr x"
proof -
  from accepts_float_re [OF assms] obtain sg w f where
    g: "g = sg @ w @ CHR ''.'' # f" and sg: "sg = [] \<or> sg = ''+'' \<or> sg = ''-''"
    and wf: "w \<noteq> []" "list_all isdigit w" "f \<noteq> []" "list_all isdigit f"
    by blast
  from sg show ?thesis
  proof (elim disjE)
    assume "sg = []"
    then show ?thesis using g py_float_unsigned [OF wf] by simp
  next
    assume "sg = ''+''"
    then show ?thesis using g py_float_signed [OF wf, of "CHR ''+''"] by simp
  next
    assume "sg = ''-''"
    then show ?thesis using g py_float_signed [OF wf, of "CHR ''-''"] by simp
  qed
qed

text \<open>\<^verbatim>\<open>int()\<close> accepts a text matched by \<^verbatim>\<open>\d+\<close> when it has at most
  \<open>max_str_digits\<close> digits, and raises \<^verbatim>\<open>ValueError\<close> when it has more.\<close>

lemma digit_groups_digits: "w \<noteq> [] \<Longrightarrow> list_all isdigit w \<Longrightarrow> digit_groups w"
proof (induction w rule: digit_groups.induct)
  case (3 c d cs)
  then show ?case using digit_not_sign [of d] by simp
qed simp_all

lemma filter_underscore_digits:
  "list_all isdigit w \<Longrightarrow> filter (\<lambda>c. c \<noteq> CHR ''_'') w = w"
  using digit_not_sign by (induction w) auto

lemma py_int_digits:
  assumes "w \<noteq> []" "list_all isdigit w"
  shows "py_int w =
     (if length w \<le> max_str_digits then Inr (int (digits_value w 0)) else Inl ValueError)"
proof -
  from assms have h: "isdigit (hd w)" and l: "isdigit (last w)"
    by (simp_all add: list_all_iff)
  have "dropWhile int_space w = w"
    using h assms(1) digit_not_space by (cases w) simp_all
  moreover have "dropWhile int_space (rev w) = rev w"
    using l assms(1) digit_not_space by (cases "rev w") (simp_all add: last_rev [symmetric] hd_rev)
  ultimately have t: "rev (dropWhile int_space (rev (dropWhile int_space w))) = w" by simp
  have sign: "hd w \<noteq> CHR ''-''" "hd w \<noteq> CHR ''+''" using h digit_not_sign by auto
  show ?thesis
    unfolding py_int_def Let_def t
    using sign assms digit_groups_digits filter_underscore_digits by simp
qed

lemma py_int_accepts:
  "accepts ic (Plus (Chr Digit)) g \<Longrightarrow>
   py_int g =
     (if length g \<le> max_str_digits then Inr (int (digits_value g 0)) else Inl ValueError)"
  using accepts_plus_digits [of ic g] py_int_digits [of g] by simp

text \<open>The limit at work: 4300 digits are converted, 4301 are not.\<close>

lemma py_int_limit:
  "py_int (replicate 4300 CHR ''1'') = Inr (int (digits_value (replicate 4300 CHR ''1'') 0)) \<and>
   py_int (replicate 4301 CHR ''1'') = Inl ValueError"
  using py_int_digits [of "replicate 4300 CHR ''1''"] py_int_digits [of "replicate 4301 CHR ''1''"]
  by (simp add: max_str_digits_def isdigit_def list_all_iff)

section \<open>The two matchers\<close>

lemma rmatch_run_stack_aux:
  "K = run_stack ic k s \<Longrightarrow> rmatch ic r s i cs K = run_stack ic (Match r # k) s i cs"
proof (induction ic r s i cs K arbitrary: k rule: rmatch.induct)
  case (3 ic a b s i cs K)
  have "(\<lambda>j cs'. rmatch ic b s j cs' K) = run_stack ic (Match b # k) s"
    using "3.IH"(1) [OF "3.prems"] by (intro ext) simp
  from "3.IH"(2) [OF this] show ?case by simp
next
  case (4 ic r s i cs K)
  let ?K = "\<lambda>j cs'. if i < j \<and> j \<le> length s then rmatch ic (Star r) s j cs' K else None"
  have "?K = run_stack ic (Progress i (Star r) # k) s"
    using "4.IH"(1) [OF _ "4.prems"] by (intro ext) simp
  from "4.IH"(2) [OF this] have
    inner: "rmatch ic r s i cs ?K = run_stack ic (Match r # Progress i (Star r) # k) s i cs" .
  have "rmatch ic (Star r) s i cs K =
      (case rmatch ic r s i cs ?K of Some m \<Rightarrow> Some m | None \<Rightarrow> K i cs)"
    by (subst rmatch.simps) (rule refl)
  also have "\<dots> = run_stack ic (Match (Star r) # k) s i cs"
    by (simp only: inner) (simp add: "4.prems" split: option.split)
  finally show ?case .
next
  case (5 ic r s i cs K)
  let ?K = "\<lambda>j cs'. if i < j \<and> j \<le> length s then rmatch ic (StarLazy r) s j cs' K else None"
  have unfold: "rmatch ic (StarLazy r) s i cs K =
      (case K i cs of Some m \<Rightarrow> Some m | None \<Rightarrow> rmatch ic r s i cs ?K)"
    by (subst rmatch.simps) (rule refl)
  show ?case
  proof (cases "K i cs")
    case None
    have "?K = run_stack ic (Progress i (StarLazy r) # k) s"
      using "5.IH"(1) [OF None _ "5.prems"] by (intro ext) simp
    from "5.IH"(2) [OF None this] have
      inner: "rmatch ic r s i cs ?K = run_stack ic (Match r # Progress i (StarLazy r) # k) s i cs" .
    from None have "run_stack ic k s i cs = None" using "5.prems" by simp
    then show ?thesis unfolding unfold None option.case inner by simp
  next
    case (Some m)
    then have "run_stack ic k s i cs = Some m" using "5.prems" by simp
    then show ?thesis unfolding unfold Some option.case by simp
  qed
next
  case (6 ic r s i cs K)
  have "rmatch ic r s i cs K = run_stack ic (Match r # k) s i cs"
    by (rule "6.IH" [OF "6.prems"])
  then show ?case by (simp add: "6.prems" split: option.split)
next
  case (7 ic n r s i cs K)
  have "(\<lambda>j cs'. K j ((n, i, j) # cs')) = run_stack ic (EndGroup n i # k) s"
    using "7.prems" by (intro ext) simp
  from "7.IH" [OF this] show ?case by simp
qed simp_all

text \<open>The two matchers agree.\<close>

lemma rmatch_run_stack:
  "rmatch ic r s i [] (\<lambda>j cs. Some (j, cs)) = run_stack ic [Match r] s i []"
  by (rule rmatch_run_stack_aux) (intro ext, simp)

lemma search_from_run_stack [code]:
  "search_from ic r s i =
     (if length s < i then None
      else (case run_stack ic [Match r] s i [] of
              Some (j, cs) \<Rightarrow> Some (i, j, cs)
            | None \<Rightarrow> search_from ic r s (Suc i)))"
  by (subst search_from.simps) (simp only: rmatch_run_stack)

section \<open>Properties of the coordinate transform\<close>

lemma notation_parts_acc: "notation_parts ms acc = acc @ map notation_part ms"
  by (induction ms arbitrary: acc) simp_all

lemma notation_parts_map: "notation_parts ms [] = map notation_part ms"
  by (simp add: notation_parts_acc)

text \<open>What the transform does to the points of one move.\<close>

lemma transform_move_from_point:
  "from_point (transform_move m) = (if from_point m = 0 then 25 else 25 - from_point m)"
  by (simp add: transform_move_def Let_def)

lemma transform_move_to_point:
  "to_point (transform_move m) =
     (if is_bear_off m then from_point (transform_move m) + die_used m else 25 - to_point m)"
  by (simp add: transform_move_def Let_def)

lemma transform_move_rest:
  "die_used (transform_move m) = die_used m \<and> is_hit (transform_move m) = is_hit m \<and>
   is_bear_off (transform_move m) = is_bear_off m"
  by (simp add: transform_move_def Let_def)

text \<open>Equities are negated, win probabilities complemented, equity differences kept.\<close>

lemma transform_ranked_fields:
  "rank (transform_ranked rp) = rank rp \<and> equity (transform_ranked rp) = - equity rp \<and>
   win_probability (transform_ranked rp) = float_sub 1 (win_probability rp) \<and>
   equity_difference (transform_ranked rp) = equity_difference rp \<and>
   play (transform_ranked rp) = transform_play (play rp)"
  by (simp add: transform_ranked_def)

lemma transform_for_black_fields:
  "best_equity (transform_for_black r) = - best_equity r \<and>
   best_play (transform_for_black r) = transform_play (best_play r) \<and>
   all_plays (transform_for_black r) = map transform_ranked (all_plays r)"
  by (simp add: transform_for_black_def Let_def)

text \<open>The notation is rebuilt from the transformed moves.\<close>

lemma transform_play_fields:
  "moves (transform_play p) = map transform_move (moves p) \<and>
   notation_str (transform_play p) =
     join '' '' (map notation_part (map transform_move (moves p)))"
  by (simp add: transform_play_def Let_def notation_parts_map)

text \<open>
  Claim C3, at the play that \<^verbatim>\<open>bar/22\<close> parses to (from-point 0 for the bar). The
  transformed move has from-point 25, and the notation loop tests the transformed
  from-point against 0, so the regenerated notation reads \<^verbatim>\<open>25/3\<close> and not
  \<^verbatim>\<open>bar/3\<close>.
\<close>

theorem transform_play_bar_notation:
  "parse_notation ''bar/22'' =
     Inr \<lparr>moves = [\<lparr>from_point = 0, to_point = 22, die_used = 22, is_hit = False,
                     is_bear_off = False\<rparr>],
          notation_str = ''bar/22''\<rparr> \<and>
   transform_play
     \<lparr>moves = [\<lparr>from_point = 0, to_point = 22, die_used = 22, is_hit = False,
                 is_bear_off = False\<rparr>],
      notation_str = ''bar/22''\<rparr>
   = \<lparr>moves = [\<lparr>from_point = 25, to_point = 3, die_used = 22, is_hit = False,
                   is_bear_off = False\<rparr>],
      notation_str = ''25/3''\<rparr>"
proof
  show "parse_notation ''bar/22'' =
     Inr \<lparr>moves = [\<lparr>from_point = 0, to_point = 22, die_used = 22, is_hit = False,
                     is_bear_off = False\<rparr>],
          notation_str = ''bar/22''\<rparr>"
    by code_simp
next
  show "transform_play
     \<lparr>moves = [\<lparr>from_point = 0, to_point = 22, die_used = 22, is_hit = False,
                 is_bear_off = False\<rparr>],
      notation_str = ''bar/22''\<rparr>
   = \<lparr>moves = [\<lparr>from_point = 25, to_point = 3, die_used = 22, is_hit = False,
                   is_bear_off = False\<rparr>],
      notation_str = ''25/3''\<rparr>"
    by (simp add: transform_play_def transform_move_def notation_part_def str_int_def
        str_nat.simps digit_char_def)
qed

text \<open>A move transformed twice: everything returns but a bear-off destination.\<close>

lemma transform_move_twice: "transform_move (transform_move m) = settle_bear_off m"
  by (simp add: transform_move_def settle_bear_off_def Let_def)

lemma transform_play_twice: "transform_play (transform_play p) = regenerated p"
  by (simp add: transform_play_def regenerated_def Let_def notation_parts_map
      transform_move_twice o_def)

lemma transform_ranked_twice:
  "transform_ranked (transform_ranked rp) =
     rp\<lparr>play := regenerated (play rp),
        win_probability := float_sub 1 (float_sub 1 (win_probability rp))\<rparr>"
  by (simp add: transform_ranked_def transform_play_twice)

lemma transform_ranked_twice_id:
  "rp\<lparr>play := regenerated (play rp),
      win_probability := float_sub 1 (float_sub 1 (win_probability rp))\<rparr> = rp \<longleftrightarrow>
   regenerated (play rp) = play rp \<and>
   float_sub 1 (float_sub 1 (win_probability rp)) = win_probability rp"
  by (cases rp) auto

text \<open>One half is a double whose complement is exact.\<close>

lemma float_sub_half: "float_sub 1 (1 / 2) = 1 / 2"
  by code_simp

lemma settle_bear_off_id:
  "settle_bear_off m = m \<longleftrightarrow> (is_bear_off m \<longrightarrow> to_point m = from_point m + die_used m)"
proof (cases "is_bear_off m")
  case True
  have "m\<lparr>to_point := from_point m + die_used m\<rparr> = m
        \<longleftrightarrow> to_point m = from_point m + die_used m"
    by (cases m) auto
  with True show ?thesis by (simp add: settle_bear_off_def)
next
  case False
  then show ?thesis by (simp add: settle_bear_off_def)
qed

lemma regenerated_id:
  "regenerated p = p \<longleftrightarrow>
     (\<forall>m \<in> set (moves p). is_bear_off m \<longrightarrow> to_point m = from_point m + die_used m) \<and>
     notation_str p = join '' '' (map notation_part (moves p))"
proof -
  have ms: "map settle_bear_off (moves p) = moves p \<longleftrightarrow>
            (\<forall>m \<in> set (moves p). is_bear_off m \<longrightarrow> to_point m = from_point m + die_used m)"
    by (simp add: map_idI settle_bear_off_id map_eq_conv [where g = "\<lambda>m. m", simplified])
  have "regenerated p = p \<longleftrightarrow>
          map settle_bear_off (moves p) = moves p \<and>
          join '' '' (map notation_part (map settle_bear_off (moves p))) = notation_str p"
    by (cases p) (simp add: regenerated_def)
  also have "\<dots> \<longleftrightarrow> map settle_bear_off (moves p) = moves p \<and>
          join '' '' (map notation_part (moves p)) = notation_str p"
    by (metis (no_types))
  finally show ?thesis using ms by auto
qed

text \<open>
  Claim C8 as stated fails twice. On the result that the parser returns for the hint
  line \<^verbatim>\<open>1. 6/off Eq.: +0.5\<close> the bear-off move has the placeholder destination 0, and
  transformed twice its destination is 6 + 6 = 12. On a result without bear-off whose
  win probability is the float \<^verbatim>\<open>0.1\<close>, two complements give the float below it,
  \<^verbatim>\<open>0.09999999999999998\<close>.
\<close>

theorem transform_twice_counterexample:
  "parse_evaluation ''1. 6/off Eq.: +0.5'' = Inr bear_off_result \<and>
   transform_for_black (transform_for_black bear_off_result) \<noteq> bear_off_result \<and>
   map to_point (moves (best_play (transform_for_black (transform_for_black bear_off_result))))
     = [12] \<and>
   transform_for_black (transform_for_black tenth_result) \<noteq> tenth_result \<and>
   map win_probability (all_plays (transform_for_black (transform_for_black tenth_result)))
     = [3602879701896396 / 36028797018963968]"
proof -
  have parsed: "parse_evaluation ''1. 6/off Eq.: +0.5'' = Inr bear_off_result"
    by code_simp
  have twelve: "map to_point (moves (best_play
      (transform_for_black (transform_for_black bear_off_result)))) = [12]"
    by (simp add: bear_off_result_def transform_for_black_def transform_play_def
        transform_move_def Let_def)
  have "map to_point (moves (best_play bear_off_result)) = [0]"
    by (simp add: bear_off_result_def)
  with twelve have bear: "transform_for_black (transform_for_black bear_off_result) \<noteq>
      bear_off_result"
    by auto
  have step: "float_sub 1 (float_sub 1 (3602879701896397 / 36028797018963968)) =
      3602879701896396 / 36028797018963968"
    by code_simp
  have below: "map win_probability (all_plays
      (transform_for_black (transform_for_black tenth_result))) =
      [3602879701896396 / 36028797018963968]"
    by (simp add: tenth_result_def transform_for_black_def transform_ranked_def Let_def step)
  have "map win_probability (all_plays tenth_result) = [3602879701896397 / 36028797018963968]"
    by (simp add: tenth_result_def)
  with below have tenth: "transform_for_black (transform_for_black tenth_result) \<noteq>
      tenth_result"
    by auto
  from parsed bear twelve tenth below show ?thesis by blast
qed

text \<open>
  Claim C8, amended. Two applications of the transform return every equity, equity
  difference, rank, from-point, die value and flag, and the destination of every move
  that is not a bear-off; a bear-off destination becomes from-point plus die, each
  notation becomes the string regenerated from the moves, and each win probability \<open>p\<close>
  becomes \<^verbatim>\<open>1.0 - (1.0 - p)\<close> as the floats compute it, which is \<open>p\<close> again for one half,
  the win probability of every parsed result. The result is the original one exactly
  when every bear-off destination already is from-point plus die, every notation already
  is the regenerated string, and the two complements return every win probability.
\<close>

theorem transform_for_black_twice:
  "transform_for_black (transform_for_black r) =
     r\<lparr>best_play := regenerated (best_play r),
       all_plays := map (\<lambda>rp. rp\<lparr>play := regenerated (play rp),
                                  win_probability :=
                                    float_sub 1 (float_sub 1 (win_probability rp))\<rparr>)
                      (all_plays r)\<rparr>
   \<and> (transform_for_black (transform_for_black r) = r \<longleftrightarrow>
        regenerated (best_play r) = best_play r \<and>
        (\<forall>rp \<in> set (all_plays r).
           regenerated (play rp) = play rp \<and>
           float_sub 1 (float_sub 1 (win_probability rp)) = win_probability rp))
   \<and> (regenerated p = p \<longleftrightarrow>
        (\<forall>m \<in> set (moves p). is_bear_off m \<longrightarrow> to_point m = from_point m + die_used m) \<and>
        notation_str p = join '' '' (map notation_part (moves p)))
   \<and> float_sub 1 (float_sub 1 (1 / 2)) = 1 / 2"
proof (intro conjI)
  show twice: "transform_for_black (transform_for_black r) =
     r\<lparr>best_play := regenerated (best_play r),
       all_plays := map (\<lambda>rp. rp\<lparr>play := regenerated (play rp),
                                  win_probability :=
                                    float_sub 1 (float_sub 1 (win_probability rp))\<rparr>)
                      (all_plays r)\<rparr>"
    by (simp add: transform_for_black_def Let_def transform_play_twice
        transform_ranked_twice o_def)
  have "r\<lparr>best_play := regenerated (best_play r),
       all_plays := map (\<lambda>rp. rp\<lparr>play := regenerated (play rp),
                                  win_probability :=
                                    float_sub 1 (float_sub 1 (win_probability rp))\<rparr>)
                      (all_plays r)\<rparr> = r \<longleftrightarrow>
     regenerated (best_play r) = best_play r \<and>
     map (\<lambda>rp. rp\<lparr>play := regenerated (play rp),
                   win_probability := float_sub 1 (float_sub 1 (win_probability rp))\<rparr>)
       (all_plays r) = all_plays r"
    by (cases r) auto
  also have "map (\<lambda>rp. rp\<lparr>play := regenerated (play rp),
                   win_probability := float_sub 1 (float_sub 1 (win_probability rp))\<rparr>)
       (all_plays r) = all_plays r \<longleftrightarrow>
     (\<forall>rp \<in> set (all_plays r).
        regenerated (play rp) = play rp \<and>
        float_sub 1 (float_sub 1 (win_probability rp)) = win_probability rp)"
    by (simp add: map_idI map_eq_conv [where g = "\<lambda>rp. rp", simplified]
        transform_ranked_twice_id)
  finally show "transform_for_black (transform_for_black r) = r \<longleftrightarrow>
        regenerated (best_play r) = best_play r \<and>
        (\<forall>rp \<in> set (all_plays r).
           regenerated (play rp) = play rp \<and>
           float_sub 1 (float_sub 1 (win_probability rp)) = win_probability rp)"
    unfolding twice .
  show "regenerated p = p \<longleftrightarrow>
        (\<forall>m \<in> set (moves p). is_bear_off m \<longrightarrow> to_point m = from_point m + die_used m) \<and>
        notation_str p = join '' '' (map notation_part (moves p))"
    by (rule regenerated_id)
  show "float_sub 1 (float_sub 1 (1 / 2)) = 1 / 2"
    by (simp add: float_sub_half)
qed

theorem transform_for_black_twice_witness:
  "regenerated example_play = example_play \<and>
   transform_for_black (transform_for_black example_result) = example_result"
proof -
  have fixed: "regenerated example_play = example_play"
    by (simp add: regenerated_def example_play_def settle_bear_off_def notation_part_def
        str_int_def str_nat.simps digit_char_def)
  have half: "float_sub 1 (float_sub 1 (1 / 2)) = 1 / 2"
    by (simp add: float_sub_half)
  note iff = transform_for_black_twice [of example_result example_play, THEN conjunct2,
      THEN conjunct1]
  have "regenerated (best_play example_result) = best_play example_result \<and>
        (\<forall>rp \<in> set (all_plays example_result).
           regenerated (play rp) = play rp \<and>
           float_sub 1 (float_sub 1 (win_probability rp)) = win_probability rp)"
    by (simp add: example_result_def fixed half)
  with iff have "transform_for_black (transform_for_black example_result) = example_result"
    by (rule iffD2)
  with fixed show ?thesis by simp
qed
section \<open>Splitting combined moves\<close>






section \<open>The position identifier\<close>

subsection \<open>Packing bits into bytes\<close>

lemma length_pack_loop: "length (pack_loop i bits data) = length data"
  by (induction bits arbitrary: i data) simp_all

lemma bit_set_bit_nat:
  "bit ((x::nat) OR 2 ^ m) k \<longleftrightarrow> bit x k \<or> k = m"
  by (auto simp add: bit_or_iff bit_exp_iff)

lemma bit_pack_loop:
  "j < length data \<Longrightarrow>
   bit (pack_loop i bits data ! j) k \<longleftrightarrow>
     bit (data ! j) k \<or> (\<exists>n < length bits. (i + n) div 8 = j \<and> (i + n) mod 8 = k \<and> bits ! n \<noteq> 0)"
proof (induction bits arbitrary: i data)
  case Nil
  then show ?case by simp
next
  case (Cons b bits)
  let ?data' = "(if b \<noteq> 0 then data[i div 8 := (data ! (i div 8)) OR push_bit (i mod 8) 1] else data)"
  have len: "j < length ?data'" using Cons.prems by simp
  have step: "bit (?data' ! j) k \<longleftrightarrow> bit (data ! j) k \<or> (b \<noteq> 0 \<and> i div 8 = j \<and> i mod 8 = k)"
  proof (cases "b \<noteq> 0 \<and> i div 8 = j")
    case True
    then have "?data' ! j = (data ! j) OR 2 ^ (i mod 8)"
      using Cons.prems by auto
    then show ?thesis using True by (auto simp add: bit_set_bit_nat)
  next
    case False
    then have "?data' ! j = data ! j" by auto
    then show ?thesis using False by auto
  qed
  have ex: "(\<exists>n < length (b # bits). (i + n) div 8 = j \<and> (i + n) mod 8 = k \<and> (b # bits) ! n \<noteq> 0)
      \<longleftrightarrow> (b \<noteq> 0 \<and> i div 8 = j \<and> i mod 8 = k) \<or>
          (\<exists>n < length bits. (Suc i + n) div 8 = j \<and> (Suc i + n) mod 8 = k \<and> bits ! n \<noteq> 0)"
    (is "?L \<longleftrightarrow> ?A \<or> ?B")
  proof
    assume ?L
    then obtain n where n: "n < length (b # bits)" "(i + n) div 8 = j" "(i + n) mod 8 = k" "(b # bits) ! n \<noteq> 0"
      by blast
    show "?A \<or> ?B"
    proof (cases n)
      case 0
      with n show ?thesis by simp
    next
      case (Suc n')
      with n have "n' < length bits \<and> (Suc i + n') div 8 = j \<and> (Suc i + n') mod 8 = k \<and> bits ! n' \<noteq> 0"
        by simp
      then show ?thesis by blast
    qed
  next
    assume "?A \<or> ?B"
    then show ?L
    proof
      assume ?A
      then have "0 < length (b # bits) \<and> (i + 0) div 8 = j \<and> (i + 0) mod 8 = k \<and> (b # bits) ! 0 \<noteq> 0"
        by simp
      then show ?L by blast
    next
      assume ?B
      then obtain n where "n < length bits" "(Suc i + n) div 8 = j" "(Suc i + n) mod 8 = k" "bits ! n \<noteq> 0"
        by blast
      then have "Suc n < length (b # bits) \<and> (i + Suc n) div 8 = j \<and> (i + Suc n) mod 8 = k \<and> (b # bits) ! Suc n \<noteq> 0"
        by simp
      then show ?L by blast
    qed
  qed
  have "bit (pack_loop i (b # bits) data ! j) k \<longleftrightarrow> bit (pack_loop (Suc i) bits ?data' ! j) k"
    by simp
  also have "\<dots> \<longleftrightarrow> bit (?data' ! j) k \<or>
      (\<exists>n < length bits. (Suc i + n) div 8 = j \<and> (Suc i + n) mod 8 = k \<and> bits ! n \<noteq> 0)"
    using Cons.IH [OF len] .
  finally show ?case using step ex by blast
qed

lemma bit_pack_bits:
  assumes "length bits \<le> 80" "i < length bits"
  shows "bit (pack_bits bits ! (i div 8)) (i mod 8) \<longleftrightarrow> bits ! i \<noteq> 0"
proof -
  have j: "i div 8 < length (replicate 10 (0::nat))" using assms by simp
  have "bit (pack_bits bits ! (i div 8)) (i mod 8) \<longleftrightarrow>
      (\<exists>n < length bits. n div 8 = i div 8 \<and> n mod 8 = i mod 8 \<and> bits ! n \<noteq> 0)"
    unfolding pack_bits_def using bit_pack_loop [OF j, of 0 bits "i mod 8"] assms by simp
  also have "\<dots> \<longleftrightarrow> bits ! i \<noteq> 0"
  proof
    assume "\<exists>n < length bits. n div 8 = i div 8 \<and> n mod 8 = i mod 8 \<and> bits ! n \<noteq> 0"
    then obtain n where n: "n div 8 = i div 8" "n mod 8 = i mod 8" "bits ! n \<noteq> 0" by blast
    have "n = 8 * (n div 8) + n mod 8" by simp
    also have "\<dots> = i" using n by simp
    finally show "bits ! i \<noteq> 0" using n by simp
  next
    assume "bits ! i \<noteq> 0" then show "\<exists>n < length bits. n div 8 = i div 8 \<and> n mod 8 = i mod 8 \<and> bits ! n \<noteq> 0"
      using assms by blast
  qed
  finally show ?thesis .
qed

lemma pack_bits_high:
  assumes "j < 10" "8 \<le> k"
  shows "\<not> bit (pack_bits bits ! j) k"
proof -
  have j: "j < length (replicate 10 (0::nat))" using assms by simp
  have "\<not> (\<exists>n < length bits. (0 + n) div 8 = j \<and> (0 + n) mod 8 = k \<and> bits ! n \<noteq> 0)"
  proof
    assume "\<exists>n < length bits. (0 + n) div 8 = j \<and> (0 + n) mod 8 = k \<and> bits ! n \<noteq> 0"
    then obtain n where "n mod 8 = k" by auto
    moreover have "n mod 8 < 8" by simp
    ultimately show False using assms by simp
  qed
  then show ?thesis
    unfolding pack_bits_def using bit_pack_loop [OF j, of 0 bits k] assms by simp
qed

lemma pack_bits_byte:
  assumes "j < 10"
  shows "pack_bits bits ! j < 256"
proof -
  have "take_bit 8 (pack_bits bits ! j) = pack_bits bits ! j"
  proof (rule bit_eqI)
    fix n
    have "bit (pack_bits bits ! j) n \<Longrightarrow> n < 8"
      using pack_bits_high [OF assms, of n bits] by (cases "n < 8") simp_all
    then show "bit (take_bit 8 (pack_bits bits ! j)) n \<longleftrightarrow> bit (pack_bits bits ! j) n"
      by (auto simp add: bit_take_bit_iff)
  qed
  then have "pack_bits bits ! j = take_bit 8 (pack_bits bits ! j)" by simp
  also have "\<dots> < 2 ^ 8" by (rule take_bit_nat_less_exp)
  finally show ?thesis by simp
qed

lemma length_pack_bits: "length (pack_bits bits) = 10"
  by (simp add: pack_bits_def length_pack_loop)

lemma unpack_pack:
  assumes "length bits = 80" "set bits \<subseteq> {0, 1}"
  shows "unpack_bits (pack_bits bits) = bits"
proof (rule nth_equalityI)
  show "length (unpack_bits (pack_bits bits)) = length bits"
    using assms by (simp add: unpack_bits_def length_pack_bits)
next
  fix i assume "i < length (unpack_bits (pack_bits bits))"
  then have i: "i < 80" by (simp add: unpack_bits_def length_pack_bits)
  then have "bits ! i \<in> {0, 1}" using assms by (metis nth_mem subsetD)
  moreover have "bit (pack_bits bits ! (i div 8)) (i mod 8) \<longleftrightarrow> bits ! i \<noteq> 0"
    using bit_pack_bits [of bits i] assms i by simp
  ultimately show "unpack_bits (pack_bits bits) ! i = bits ! i"
    using i by (auto simp add: unpack_bits_def length_pack_bits)
qed

subsection \<open>Base64 without padding\<close>

lemma index_of_nth: "distinct xs \<Longrightarrow> n < length xs \<Longrightarrow> index_of (xs ! n) xs = Some n"
proof (induction xs arbitrary: n)
  case Nil
  then show ?case by simp
next
  case (Cons x xs)
  show ?case
  proof (cases n)
    case 0
    then show ?thesis by simp
  next
    case (Suc k)
    with Cons.prems have k: "k < length xs" and "x \<notin> set xs" and "distinct xs" by simp_all
    then have "xs ! k \<noteq> x" by (metis nth_mem)
    with Cons.IH [OF \<open>distinct xs\<close> k] Suc show ?thesis by simp
  qed
qed

lemma distinct_b64_alphabet: "distinct b64_alphabet"
  by (simp add: b64_alphabet_def)

lemma length_b64_alphabet: "length b64_alphabet = 64"
  by (simp add: b64_alphabet_def)

lemma pad_not_in_alphabet: "CHR ''='' \<notin> set b64_alphabet"
  by (simp add: b64_alphabet_def)

lemma b64_index_char: "n < 64 \<Longrightarrow> b64_index (b64_char n) = Some n"
  unfolding b64_index_def b64_char_def
  by (rule index_of_nth) (simp_all add: distinct_b64_alphabet length_b64_alphabet)

lemma b64_char_not_pad: "n < 64 \<Longrightarrow> b64_char n \<noteq> CHR ''=''"
  unfolding b64_char_def
  by (metis length_b64_alphabet nth_mem pad_not_in_alphabet)

lemma those_list_sextets:
  "\<forall>s \<in> set ss. s < 64 \<Longrightarrow> those_list (map b64_index (map b64_char ss)) = Some ss"
  by (induction ss) (simp_all add: b64_index_char)

lemma b64decode_chars:
  "\<forall>s \<in> set ss. s < 64 \<Longrightarrow> b64decode_unpadded (map b64_char ss) = b64decode_sextets ss"
  using those_list_sextets [of ss] by (simp add: b64decode_unpadded_def)

lemma rstrip_eq_append:
  "rstrip_eq (xs @ ys) = (if rstrip_eq ys = [] then rstrip_eq xs else xs @ rstrip_eq ys)"
  by (auto simp add: rstrip_eq_def dropWhile_append)

lemma rstrip_eq_chars: "\<forall>s \<in> set ss. s < 64 \<Longrightarrow> rstrip_eq (map b64_char ss) = map b64_char ss"
proof (induction ss rule: rev_induct)
  case Nil
  then show ?case by (simp add: rstrip_eq_def)
next
  case (snoc s ss)
  then have "b64_char s \<noteq> CHR ''=''" by (simp add: b64_char_not_pad)
  then show ?case by (simp add: rstrip_eq_def)
qed

lemma byte_high_nibble_div: "b < 256 \<Longrightarrow> b div 16 div 16 = (0::nat)" by (simp add: div_mult2_eq [symmetric])
lemma byte_high_nibble_mod: "b < 256 \<Longrightarrow> b div 16 mod 16 = (b div 16 :: nat)" by (simp add: less_mult_imp_div_less)
lemma byte_top_pair_div: "c < 256 \<Longrightarrow> c div 64 div 4 = (0::nat)" by (simp add: div_mult2_eq [symmetric])
lemma byte_top_pair_mod: "c < 256 \<Longrightarrow> c div 64 mod 4 = (c div 64 :: nat)" by (simp add: less_mult_imp_div_less)

lemma sextets_first: "b < 256 \<Longrightarrow> a div 4 * 4 + (a mod 4 * 16 + b div 16) div 16 = (a::nat)"
  by (simp add: byte_high_nibble_div)

lemma sextets_second:
  "b < 256 \<Longrightarrow> c < 256 \<Longrightarrow>
   (a mod 4 * 16 + b div 16) mod 16 * 16 + (b mod 16 * 4 + c div 64) div 4 = (b::nat)"
  by (simp add: byte_high_nibble_mod byte_top_pair_div)

lemma sextets_third: "c < 256 \<Longrightarrow> (b mod 16 * 4 + c div 64) mod 4 * 64 + c mod 64 = (c::nat)"
  by (simp add: byte_top_pair_mod)

text \<open>The six-bit groups of a byte list, as \<open>b64encode\<close> forms them.\<close>

lemma b64encode_sextets:
  "\<forall>b \<in> set data. b < 256 \<Longrightarrow>
   \<exists>ss. rstrip_eq (b64encode data) = map b64_char ss \<and> (\<forall>s \<in> set ss. s < 64) \<and>
        b64decode_sextets ss = Some data \<and> length ss = (4 * length data + 2) div 3"
proof (induction data rule: b64encode.induct)
  case 1
  have "rstrip_eq (b64encode []) = map b64_char []" by (simp add: rstrip_eq_def)
  then show ?case by force
next
  case (2 a)
  let ?ss = "[a div 4, (a mod 4) * 16]"
  have lt: "\<forall>s \<in> set ?ss. s < 64" using 2 by auto
  have "b64encode [a] = map b64_char ?ss @ ''==''" by simp
  then have "rstrip_eq (b64encode [a]) = rstrip_eq (map b64_char ?ss)"
    by (simp only: rstrip_eq_append) (simp add: rstrip_eq_def)
  then have "rstrip_eq (b64encode [a]) = map b64_char ?ss"
    using rstrip_eq_chars [OF lt] by simp
  moreover have "b64decode_sextets ?ss = Some [a]"
    using sextets_first [of 0 a] by simp
  ultimately show ?case using lt by (intro exI [of _ ?ss]) simp
next
  case (3 a b)
  let ?ss = "[a div 4, (a mod 4) * 16 + b div 16, (b mod 16) * 4]"
  have lt: "\<forall>s \<in> set ?ss. s < 64" using 3 by auto
  have "b64encode [a, b] = map b64_char ?ss @ ''=''" by simp
  then have "rstrip_eq (b64encode [a, b]) = rstrip_eq (map b64_char ?ss)"
    by (simp only: rstrip_eq_append) (simp add: rstrip_eq_def)
  then have "rstrip_eq (b64encode [a, b]) = map b64_char ?ss"
    using rstrip_eq_chars [OF lt] by simp
  moreover have "b64decode_sextets ?ss = Some [a, b]"
    using 3 sextets_first [of b a] sextets_second [of b 0 a] by simp
  ultimately show ?case using lt by (intro exI [of _ ?ss]) simp
next
  case (4 a b c rest)
  let ?hd = "[a div 4, (a mod 4) * 16 + b div 16, (b mod 16) * 4 + c div 64, c mod 64]"
  from 4 obtain ss where ss: "rstrip_eq (b64encode rest) = map b64_char ss"
      "\<forall>s \<in> set ss. s < 64" "b64decode_sextets ss = Some rest"
      "length ss = (4 * length rest + 2) div 3"
    by auto
  have lt: "\<forall>s \<in> set ?hd. s < 64" using 4(2) by auto
  have enc: "b64encode (a # b # c # rest) = map b64_char ?hd @ b64encode rest" by simp
  have "rstrip_eq (b64encode (a # b # c # rest)) = map b64_char (?hd @ ss)"
  proof (cases "ss = []")
    case True
    then show ?thesis
      unfolding enc rstrip_eq_append using ss(1) rstrip_eq_chars [OF lt] by simp
  next
    case False
    then show ?thesis
      unfolding enc rstrip_eq_append using ss(1) by simp
  qed
  moreover have "\<forall>s \<in> set (?hd @ ss). s < 64" using lt ss(2) by auto
  moreover have "b64decode_sextets (?hd @ ss) = Some (a # b # c # rest)"
  proof -
    have e1: "a div 4 * 4 + (a mod 4 * 16 + b div 16) div 16 = a"
      using 4(2) by (intro sextets_first) simp
    have e2: "(a mod 4 * 16 + b div 16) mod 16 * 16 + (b mod 16 * 4 + c div 64) div 4 = b"
      using 4(2) by (intro sextets_second) simp_all
    have e3: "(b mod 16 * 4 + c div 64) mod 4 * 64 + c mod 64 = c"
      using 4(2) by (intro sextets_third) simp
    have "b64decode_sextets (?hd @ ss) =
        Some ([a div 4 * 4 + (a mod 4 * 16 + b div 16) div 16,
               (a mod 4 * 16 + b div 16) mod 16 * 16 + (b mod 16 * 4 + c div 64) div 4,
               (b mod 16 * 4 + c div 64) mod 4 * 64 + c mod 64] @ rest)"
      by (simp only: append.simps b64decode_sextets.simps ss(3) option.map)
    then show ?thesis by (simp only: e1 e2 e3 append.simps)
  qed
  moreover have "length (?hd @ ss) = (4 * length (a # b # c # rest) + 2) div 3"
    using ss(4) by simp
  ultimately show ?case by blast
qed

lemma b64_roundtrip:
  assumes "\<forall>b \<in> set data. b < 256"
  shows "b64decode_unpadded (rstrip_eq (b64encode data)) = Some data"
    and "length (rstrip_eq (b64encode data)) = (4 * length data + 2) div 3"
    and "CHR ''='' \<notin> set (rstrip_eq (b64encode data))"
proof -
  from b64encode_sextets [OF assms] obtain ss where
    ss: "rstrip_eq (b64encode data) = map b64_char ss" "\<forall>s \<in> set ss. s < 64"
      "b64decode_sextets ss = Some data" "length ss = (4 * length data + 2) div 3"
    by blast
  show "b64decode_unpadded (rstrip_eq (b64encode data)) = Some data"
    using ss by (simp add: b64decode_chars)
  show "length (rstrip_eq (b64encode data)) = (4 * length data + 2) div 3"
    using ss by simp
  show "CHR ''='' \<notin> set (rstrip_eq (b64encode data))"
  proof
    assume "CHR ''='' \<in> set (rstrip_eq (b64encode data))"
    then obtain s where "s \<in> set ss" "b64_char s = CHR ''=''"
      using ss(1) by auto
    then show False using ss(2) b64_char_not_pad by blast
  qed
qed

subsection \<open>The bit layout\<close>

lemma fold_extend_run:
  "fold (\<lambda>i bits. extend_run bits (f i)) is acc = acc @ concat (map (\<lambda>i. run (nat (f i))) is)"
  by (induction "is" arbitrary: acc) (simp_all add: extend_run_def run_def)

lemma position_bits_layout:
  assumes "24 \<le> length pts" "2 \<le> length brs"
  shows "position_bits pts brs = Inr (spec_layout pts brs)"
proof -
  have "position_bits pts brs =
      Inr (extend_run
        (extend_run (concat (map (\<lambda>i. run (nat (max 0 (pts ! i)))) [0..<24])) (brs ! 0) @
         concat (map (\<lambda>i. run (nat (max 0 (- (pts ! i))))) (rev [0..<24])))
        (brs ! 1))"
    using assms unfolding position_bits_def Let_def fold_extend_run by simp
  then show ?thesis
    by (simp add: spec_layout_def extend_run_def run_def white_at_def black_at_def
        del: upt.simps)
qed

lemma set_run: "set (run n) \<subseteq> {0, 1}"
  by (auto simp add: run_def)

lemma set_concat_runs: "set (concat (map (\<lambda>i. run (f i)) is)) \<subseteq> {0, 1}"
  using set_run by (induction "is") auto

lemma set_spec_layout: "set (spec_layout pts brs) \<subseteq> {0, 1}"
proof -
  have "set (concat (map (\<lambda>i. run (white_at pts i)) [0..<24])) \<subseteq> {0, 1}"
    by (rule set_concat_runs)
  moreover have "set (concat (map (\<lambda>i. run (black_at pts i)) (rev [0..<24]))) \<subseteq> {0, 1}"
    by (rule set_concat_runs)
  moreover have "set (run (nat (brs ! 0))) \<subseteq> {0, 1}" "set (run (nat (brs ! 1))) \<subseteq> {0, 1}"
    by (rule set_run)+
  ultimately show ?thesis
    unfolding spec_layout_def set_append by blast
qed

lemma length_concat_runs:
  "length (concat (map (\<lambda>i. run (f i)) is)) = sum_list (map f is) + length is"
  by (induction "is") (simp_all add: run_def)

lemma sum_list_points:
  assumes "length pts = 24"
  shows "sum_list (map (\<lambda>i. f (pts ! i)) [0..<24]) = sum_list (map f pts)"
proof -
  have "map (\<lambda>i. f (pts ! i)) [0..<24] = map f (map (\<lambda>i. pts ! i) [0..<length pts])"
    using assms by (simp del: upt.simps)
  then show ?thesis by (simp only: map_nth)
qed

lemma sum_list_rev_points:
  fixes f :: "int \<Rightarrow> 'b::comm_monoid_add"
  assumes "length pts = 24"
  shows "sum_list (map (\<lambda>i. f (pts ! i)) (rev [0..<24])) = sum_list (map f pts)"
proof -
  have "sum_list (map (\<lambda>i. f (pts ! i)) (rev [0..<24])) =
        sum_list (rev (map (\<lambda>i. f (pts ! i)) [0..<24]))"
    by (simp only: rev_map)
  also have "\<dots> = sum_list (map (\<lambda>i. f (pts ! i)) [0..<24])"
    by (rule sum_list_rev)
  finally show ?thesis using sum_list_points [OF assms] by simp
qed

lemma int_sum_list_nat:
  "(\<forall>x \<in> set xs. 0 \<le> f x) \<Longrightarrow> int (sum_list (map (\<lambda>x. nat (f x)) xs)) = sum_list (map f xs)"
  by (induction xs) simp_all

lemma length_spec_layout:
  assumes "length pts = 24" "0 \<le> brs ! 0" "0 \<le> brs ! 1"
  shows "int (length (spec_layout pts brs)) =
     50 + sum_list (map (\<lambda>p. max 0 p) pts) + brs ! 0 +
          sum_list (map (\<lambda>p. max 0 (- p)) pts) + brs ! 1"
proof -
  have w: "int (sum_list (map (white_at pts) [0..<24])) = sum_list (map (\<lambda>p. max 0 p) pts)"
  proof -
    have "sum_list (map (white_at pts) [0..<24]) =
          sum_list (map (\<lambda>p. nat (max 0 p)) pts)"
      unfolding white_at_def using sum_list_points [OF assms(1), of "\<lambda>p. nat (max 0 p)"] by simp
    then show ?thesis using int_sum_list_nat [of pts "\<lambda>p. max 0 p"] by simp
  qed
  have b: "int (sum_list (map (black_at pts) (rev [0..<24]))) =
           sum_list (map (\<lambda>p. max 0 (- p)) pts)"
  proof -
    have "sum_list (map (black_at pts) (rev [0..<24])) =
          sum_list (map (\<lambda>p. nat (max 0 (- p))) pts)"
      unfolding black_at_def
      using sum_list_rev_points [OF assms(1), of "\<lambda>p. nat (max 0 (- p))"] by simp
    then show ?thesis using int_sum_list_nat [of pts "\<lambda>p. max 0 (- p)"] by simp
  qed
  have "length (spec_layout pts brs) =
      (sum_list (map (white_at pts) [0..<24]) + 24) + (nat (brs ! 0) + 1) +
      ((sum_list (map (black_at pts) (rev [0..<24])) + 24) + (nat (brs ! 1) + 1))"
    unfolding spec_layout_def length_append length_concat_runs
    by (simp add: run_def del: upt.simps)
  then show ?thesis using w b assms(2,3) by simp
qed

lemma length_layout_invariant:
  assumes "board_invariant pts brs off"
  shows "length (spec_layout pts brs) \<le> 80"
proof -
  from assms have len: "length pts = 24" and brs: "0 \<le> brs ! 0" "0 \<le> brs ! 1"
    and off: "0 \<le> off ! 0" "0 \<le> off ! 1"
    and w: "sum_list (map (\<lambda>p. max 0 p) pts) + brs ! 0 + off ! 0 = 15"
    and b: "sum_list (map (\<lambda>p. max 0 (- p)) pts) + brs ! 1 + off ! 1 = 15"
    by (simp_all add: board_invariant_def white_count_def black_count_def)
  have "int (length (spec_layout pts brs)) \<le> 80"
    using length_spec_layout [OF len brs] off w b by linarith
  then show ?thesis by simp
qed

lemma truncate_pad_short:
  "length bits \<le> 80 \<Longrightarrow> truncate_pad bits = bits @ replicate (80 - length bits) 0"
  by (simp add: truncate_pad_def)


lemma length_truncate_pad: "length (truncate_pad bits) = 80"
  by (simp add: truncate_pad_def)

lemma set_truncate_pad: "set bits \<subseteq> {0, 1} \<Longrightarrow> set (truncate_pad bits) \<subseteq> {0, 1}"
proof -
  assume a: "set bits \<subseteq> {0, 1}"
  have "set (truncate_pad bits) \<subseteq> set (bits @ replicate 80 0)"
    unfolding truncate_pad_def by (rule set_take_subset)
  also have "\<dots> \<subseteq> {0, 1}" using a by auto
  finally show ?thesis .
qed

subsection \<open>Reading the layout back\<close>

lemma read_run_run: "read_run (run n @ rest) = (n, rest)"
  by (simp add: read_run_def run_def takeWhile_append dropWhile_append)

lemma read_runs_runs:
  "read_runs (length ns) (concat (map run ns) @ rest) = (ns, rest)"
  by (induction ns) (simp_all add: read_run_run)

lemma spec_layout_runs:
  "spec_layout pts brs @ rest =
     concat (map run (map (white_at pts) [0..<24] @ [nat (brs ! 0)])) @
     concat (map run (map (black_at pts) (rev [0..<24]) @ [nat (brs ! 1)])) @ rest"
  by (simp add: spec_layout_def o_def del: upt.simps)

lemma signed_count: "int (white_at pts i) - int (black_at pts i) = pts ! i"
  by (simp add: white_at_def black_at_def)

lemma decode_layout_spec:
  assumes "length pts = 24" "length brs = 2" "0 \<le> brs ! 0" "0 \<le> brs ! 1"
  shows "decode_layout (spec_layout pts brs @ rest) = (pts, brs)"
proof -
  let ?w = "map (white_at pts) [0..<24] @ [nat (brs ! 0)]"
  let ?b = "map (black_at pts) (rev [0..<24]) @ [nat (brs ! 1)]"
  have lw: "length ?w = 25" and lb: "length ?b = 25" by simp_all
  have r1: "read_runs 25 (spec_layout pts brs @ rest) = (?w, concat (map run ?b) @ rest)"
    unfolding spec_layout_runs using read_runs_runs [of ?w "concat (map run ?b) @ rest"]
    by (simp only: lw)
  have r2: "read_runs 25 (concat (map run ?b) @ rest) = (?b, rest)"
    using read_runs_runs [of ?b rest] by (simp only: lb)
  have pt: "int (?w ! i) - int (?b ! (23 - i)) = pts ! i" if "i < 24" for i
  proof -
    have "?w ! i = white_at pts i"
      using that by (simp add: nth_append del: upt.simps)
    moreover have "?b ! (23 - i) = black_at pts i"
    proof -
      have k: "23 - i < 24" "24 - Suc (23 - i) = i" using that by arith+
      then have "?b ! (23 - i) = map (black_at pts) (rev [0..<24]) ! (23 - i)"
        by (simp add: nth_append del: upt.simps)
      also have "\<dots> = black_at pts (rev [0..<24] ! (23 - i))"
        using k(1) by (simp del: upt.simps)
      also have "rev [0..<24] ! (23 - i) = i"
        using k that by (simp add: rev_nth del: upt.simps)
      finally show ?thesis .
    qed
    ultimately show ?thesis by (simp only: signed_count)
  qed
  have "map (\<lambda>i. int (?w ! i) - int (?b ! (23 - i))) [0..<24] = map (\<lambda>i. pts ! i) [0..<24]"
    using pt by (intro map_cong refl) simp
  also have "\<dots> = pts"
    using assms(1) map_nth [of pts] by simp
  finally have pts: "map (\<lambda>i. int (?w ! i) - int (?b ! (23 - i))) [0..<24] = pts" .
  have "brs = [brs ! 0, brs ! 1]"
    using assms(2) by (cases brs; cases "tl brs") auto
  then have brs: "[int (?w ! 24), int (?b ! 24)] = brs"
    using assms(3,4) by (simp add: nth_append del: upt.simps)
  show ?thesis
    by (simp only: decode_layout_def r1 r2 Let_def prod.case pts brs)
qed

subsection \<open>The identifier of any board\<close>

lemma position_id_shape_aux:
  fixes bits :: "nat list"
  assumes sub: "set bits \<subseteq> {0, 1}"
  defines "t \<equiv> truncate_pad bits"
  defines "data \<equiv> pack_bits t"
  defines "s \<equiv> rstrip_eq (b64encode data)"
  shows "length t = 80"
    and "length data = 10"
    and "\<forall>j<10. data ! j < 256"
    and "\<forall>i<80. bit (data ! (i div 8)) (i mod 8) \<longleftrightarrow> t ! i = 1"
    and "length s = 14"
    and "CHR ''='' \<notin> set s"
    and "b64decode_unpadded s = Some data"
    and "unpack_bits data = t"
proof -
  show lt: "length t = 80" by (simp add: t_def length_truncate_pad)
  have st: "set t \<subseteq> {0, 1}" unfolding t_def using sub by (rule set_truncate_pad)
  show ld: "length data = 10" by (simp add: data_def length_pack_bits)
  show bytes: "\<forall>j<10. data ! j < 256" by (simp add: data_def pack_bits_byte)
  show "\<forall>i<80. bit (data ! (i div 8)) (i mod 8) \<longleftrightarrow> t ! i = 1"
  proof (intro allI impI)
    fix i :: nat assume i: "i < 80"
    then have "t ! i \<in> {0, 1}" using st lt by (metis nth_mem subsetD)
    moreover have "bit (data ! (i div 8)) (i mod 8) \<longleftrightarrow> t ! i \<noteq> 0"
      unfolding data_def using bit_pack_bits [of t i] lt i by simp
    ultimately show "bit (data ! (i div 8)) (i mod 8) \<longleftrightarrow> t ! i = 1" by auto
  qed
  have all: "\<forall>b \<in> set data. b < 256"
    using bytes ld by (auto simp add: in_set_conv_nth)
  show "length s = 14" unfolding s_def using b64_roundtrip(2) [OF all] ld by simp
  show "CHR ''='' \<notin> set s" unfolding s_def by (rule b64_roundtrip(3) [OF all])
  show "b64decode_unpadded s = Some data" unfolding s_def by (rule b64_roundtrip(1) [OF all])
  show "unpack_bits data = t" unfolding data_def using unpack_pack [OF lt st] .
qed

lemma set_position_bits:
  "position_bits pts brs = Inr bits \<Longrightarrow> set bits \<subseteq> {0, 1}"
proof -
  assume a: "position_bits pts brs = Inr bits"
  then have "24 \<le> length pts \<and> 2 \<le> length brs"
    by (auto simp add: position_bits_def split: if_splits)
  then have "bits = spec_layout pts brs" using a position_bits_layout by simp
  then show ?thesis using set_spec_layout by simp
qed



subsection \<open>Round trip on valid boards\<close>

lemma decode_position_id_valid:
  assumes "board_invariant pts brs off"
  shows "\<exists>s. make_position_id pts brs = Inr s \<and> decode_position_id s = Some (pts, brs)"
proof -
  from assms have len: "length pts = 24" "length brs = 2" and brs: "0 \<le> brs ! 0" "0 \<le> brs ! 1"
    by (simp_all add: board_invariant_def)
  let ?bits = "spec_layout pts brs"
  let ?t = "truncate_pad ?bits"
  let ?data = "pack_bits ?t"
  let ?s = "rstrip_eq (b64encode ?data)"
  have pb: "position_bits pts brs = Inr ?bits"
    using len by (intro position_bits_layout) simp_all
  have mk: "make_position_id pts brs = Inr ?s"
    by (simp add: make_position_id_def pb)
  note shape = position_id_shape_aux [OF set_spec_layout, of pts brs]
  have t: "?t = ?bits @ replicate (80 - length ?bits) 0"
    using length_layout_invariant [OF assms] by (rule truncate_pad_short)
  have "decode_layout ?t = (pts, brs)"
    unfolding t using len brs by (rule decode_layout_spec)
  then have "decode_position_id ?s = Some (pts, brs)"
    by (simp add: decode_position_id_def shape(7) shape(8))
  with mk show ?thesis by blast
qed

text \<open>
  Claim C1. For a board whose counts satisfy the invariant (24 points, bar and borne-off
  entries that are counts, so not negative, 15 checkers a side), the bits written are the specified
  layout, they fit in 80 bits so that the truncation only pads, and decoding the layout,
  or the identifier itself, gives back every point and bar count; two valid boards with
  the same identifier are the same board.
\<close>

theorem position_id_roundtrip:
  assumes "board_invariant pts brs off"
  shows "position_bits pts brs = Inr (spec_layout pts brs) \<and>
     length (spec_layout pts brs) \<le> 80 \<and>
     truncate_pad (spec_layout pts brs) =
       spec_layout pts brs @ replicate (80 - length (spec_layout pts brs)) 0 \<and>
     decode_layout (truncate_pad (spec_layout pts brs)) = (pts, brs) \<and>
     (\<exists>s. make_position_id pts brs = Inr s \<and> decode_position_id s = Some (pts, brs)) \<and>
     (\<forall>pts' brs' off'.
        board_invariant pts' brs' off' \<and>
        make_position_id pts' brs' = make_position_id pts brs \<longrightarrow>
        pts' = pts \<and> brs' = brs)"
proof (intro conjI allI impI)
  from assms have len: "length pts = 24" "length brs = 2" and brs: "0 \<le> brs ! 0" "0 \<le> brs ! 1"
    by (simp_all add: board_invariant_def)
  show "position_bits pts brs = Inr (spec_layout pts brs)"
    using len by (intro position_bits_layout) simp_all
  show le: "length (spec_layout pts brs) \<le> 80"
    using assms by (rule length_layout_invariant)
  show t: "truncate_pad (spec_layout pts brs) =
       spec_layout pts brs @ replicate (80 - length (spec_layout pts brs)) 0"
    using le by (rule truncate_pad_short)
  show "decode_layout (truncate_pad (spec_layout pts brs)) = (pts, brs)"
    unfolding t using len brs by (rule decode_layout_spec)
  show "\<exists>s. make_position_id pts brs = Inr s \<and> decode_position_id s = Some (pts, brs)"
    using assms by (rule decode_position_id_valid)
next
  fix pts' brs' off'
  assume a: "board_invariant pts' brs' off' \<and>
        make_position_id pts' brs' = make_position_id pts brs"
  from decode_position_id_valid [OF assms] obtain s where
    s: "make_position_id pts brs = Inr s" "decode_position_id s = Some (pts, brs)" by blast
  from a decode_position_id_valid [of pts' brs' off'] obtain s' where
    s': "make_position_id pts' brs' = Inr s'" "decode_position_id s' = Some (pts', brs')"
    by blast
  from a s s' have "s' = s" by simp
  with s s' have eq: "(pts', brs') = (pts, brs)" by simp
  from eq show "pts' = pts" by simp
  from eq show "brs' = brs" by simp
qed

theorem position_id_roundtrip_witness:
  "board_invariant opening_points [0, 0] [0, 0] \<and>
   make_position_id opening_points [0, 0] = Inr ''4HPwATDgc/ABMA'' \<and>
   decode_position_id ''4HPwATDgc/ABMA'' = Some (opening_points, [0, 0])"
proof -
  have inv: "board_invariant opening_points [0, 0] [0, 0]"
    by code_simp
  have id: "make_position_id opening_points [0, 0] = Inr ''4HPwATDgc/ABMA''"
    by code_simp
  from position_id_roundtrip [OF inv] obtain s where
    "make_position_id opening_points [0, 0] = Inr s"
    "decode_position_id s = Some (opening_points, [0, 0])"
    by blast
  with id have "decode_position_id ''4HPwATDgc/ABMA'' = Some (opening_points, [0, 0])"
    by simp
  with inv id show ?thesis by blast
qed

text \<open>A bar entry below zero is written as an empty run, as a zero entry is.\<close>

lemma negative_bar_run: "c \<le> 0 \<Longrightarrow> extend_run bits c = extend_run bits 0"
  by (simp add: extend_run_def)

section \<open>The cube decision\<close>






section \<open>The parsers\<close>

lemma bind_Inr: "bind x f = Inr y \<longleftrightarrow> (\<exists>v. x = Inr v \<and> f v = Inr y)"
  by (cases x) (simp_all add: bind_def)

lemma bind_Inl: "bind x f = Inl e \<longleftrightarrow> x = Inl e \<or> (\<exists>v. x = Inr v \<and> f v = Inl e)"
  by (cases x) (simp_all add: bind_def)

subsection \<open>Every error is a \<^verbatim>\<open>ValueError\<close>\<close>

lemma py_int_error: "py_int s = Inl e \<Longrightarrow> e = ValueError"
  by (simp add: py_int_def Let_def split: if_splits)

lemma py_float_error: "py_float s = Inl e \<Longrightarrow> e = ValueError"
  by (simp add: py_float_def Let_def split: if_splits)

lemma int_group_error: "int_group s m n = Inl e \<Longrightarrow> e = ValueError"
  by (auto simp add: int_group_def dest: py_int_error split: option.splits)

lemma float_group_error: "float_group s m n = Inl e \<Longrightarrow> e = ValueError"
  by (auto simp add: float_group_def dest: py_float_error split: option.splits)

lemma parse_pair_error: "parse_pair a b = Inl e \<Longrightarrow> e = ValueError"
  by (auto simp add: parse_pair_def Let_def bind_Inl dest: py_int_error split: if_splits)

lemma segments_loop_error: "segments_loop segs n acc = Inl e \<Longrightarrow> e = ValueError"
  by (induction segs n acc rule: segments_loop.induct)
    (auto simp add: bind_Inl dest: parse_pair_error)

lemma parse_part_error: "parse_part part acc = Inl e \<Longrightarrow> e = ValueError"
  by (auto simp add: parse_part_def Let_def bind_Inl
      dest: int_group_error segments_loop_error split: option.splits if_splits)

lemma parts_loop_error: "parts_loop ps acc = Inl e \<Longrightarrow> e = ValueError"
  by (induction ps arbitrary: acc) (auto simp add: bind_Inl dest: parse_part_error)

lemma parse_notation_error: "parse_notation n = Inl e \<Longrightarrow> e = ValueError"
  by (auto simp add: parse_notation_def bind_Inl dest: parts_loop_error)

lemma parse_match_error: "parse_match out m plays = Inl e \<Longrightarrow> e = ValueError"
  by (auto simp add: parse_match_def bind_Inl
      dest: int_group_error float_group_error parse_notation_error split: option.splits)

lemma matches_loop_error: "matches_loop out ms plays = Inl e \<Longrightarrow> e = ValueError"
  by (induction ms arbitrary: plays) (auto simp add: bind_Inl dest: parse_match_error)

lemma parse_evaluation_error: "parse_evaluation out = Inl e \<Longrightarrow> e = ValueError"
  by (auto simp add: parse_evaluation_def Let_def bind_Inl dest: matches_loop_error)

subsection \<open>The ranked list\<close>

lemma parse_match_appends:
  "parse_match out m plays = Inr res \<Longrightarrow> \<exists>rp. res = plays @ [rp]"
  by (auto simp add: parse_match_def bind_Inr)

lemma matches_loop_appends:
  "matches_loop out ms plays = Inr res \<Longrightarrow>
   \<exists>new. res = plays @ new \<and> length new = length ms"
proof (induction ms arbitrary: plays)
  case Nil
  then show ?case by simp
next
  case (Cons m ms)
  from Cons.prems obtain mid where mid: "parse_match out m plays = Inr mid"
    and rest: "matches_loop out ms mid = Inr res"
    by (auto simp add: bind_Inr)
  from parse_match_appends [OF mid] obtain rp where "mid = plays @ [rp]" by blast
  moreover from Cons.IH [OF rest] obtain new where "res = mid @ new" "length new = length ms"
    by blast
  ultimately show ?case by (intro exI [of _ "rp # new"]) simp
qed

lemma parse_evaluation_shape:
  assumes "parse_evaluation out = Inr resp"
  shows "all_plays resp \<noteq> [] \<and> best_play resp = play (hd (all_plays resp)) \<and>
         best_equity resp = equity (hd (all_plays resp)) \<and>
         length (all_plays resp) = max 1 (length (re_finditer False move_pat out))"
proof -
  from assms obtain plays where
    loop: "matches_loop out (re_finditer False move_pat out) [] = Inr plays"
    and resp: "resp = (let plays = (if plays = [] then plays @ [no_move_entry] else plays)
       in \<lparr>best_play = play (hd plays), best_equity = equity (hd plays), all_plays = plays\<rparr>)"
    unfolding parse_evaluation_def bind_Inr Let_def by auto
  from matches_loop_appends [OF loop]
  have "length plays = length (re_finditer False move_pat out)" by auto
  then show ?thesis unfolding resp Let_def by (cases plays) simp_all
qed

lemma parse_evaluation_no_match:
  assumes "re_finditer False move_pat out = []"
  shows "parse_evaluation out =
     Inr \<lparr>best_play = \<lparr>moves = [], notation_str = ''No move''\<rparr>, best_equity = 0,
          all_plays = [\<lparr>rank = 1, play = \<lparr>moves = [], notation_str = ''No move''\<rparr>,
                         equity = 0, win_probability = 1 / 2, equity_difference = 0\<rparr>]\<rparr>"
  using assms by (simp add: parse_evaluation_def bind_def no_move_entry_def)

subsection \<open>When the evaluation parser returns\<close>

lemma move_pat_groups:
  "mandatory 1 move_pat \<and> bodies 1 move_pat = [Plus (Chr Digit)]"
  "mandatory 2 move_pat"
  "mandatory 3 move_pat \<and> bodies 3 move_pat = [float_re]"
  by (simp_all add: move_pat_def lits_def Plus_def float_re_def)

lemma move_match_groups:
  assumes "m \<in> set (re_finditer False move_pat out)"
  shows "\<exists>g1 g eq. match_group out m 1 = Some g1 \<and>
           int_group out m 1 =
             (if length g1 \<le> max_str_digits then Inr (int (digits_value g1 0))
              else Inl ValueError) \<and>
           match_group out m 2 = Some g \<and> float_group out m 3 = Inr eq"
proof -
  obtain st e cs where m: "m = (st, e, cs)" by (cases m) auto
  from re_finditer_sound [OF assms [unfolded m]] have good: "good_caps False move_pat out cs"
    and mand: "\<forall>n. mandatory n move_pat \<longrightarrow> n \<in> fst ` set cs"
    by simp_all
  from mand move_pat_groups have in1: "1 \<in> fst ` set cs" and in2: "2 \<in> fst ` set cs"
    and in3: "3 \<in> fst ` set cs" by blast+
  from group_mandatory [OF good in1, of st e] move_pat_groups(1) obtain g1 where
    g1: "match_group out m 1 = Some g1" "accepts False (Plus (Chr Digit)) g1"
    unfolding m by auto
  from group_mandatory [OF good in2, of st e] obtain g2 where
    g2: "match_group out m 2 = Some g2" unfolding m by auto
  from group_mandatory [OF good in3, of st e] move_pat_groups(3) obtain g3 where
    g3: "match_group out m 3 = Some g3" "accepts False float_re g3"
    unfolding m by auto
  from py_float_accepts [OF g3(2)] obtain x where "py_float g3 = Inr x" by blast
  then show ?thesis using g1(1) g2 g3(1) py_int_accepts [OF g1(2)]
    by (simp add: int_group_def float_group_def)
qed

lemma parse_match_returns:
  assumes "m \<in> set (re_finditer False move_pat out)"
  shows "(\<exists>res. parse_match out m plays = Inr res) \<longleftrightarrow>
         (\<exists>g1 g p. match_group out m 1 = Some g1 \<and> length g1 \<le> max_str_digits \<and>
            match_group out m 2 = Some g \<and> parse_notation (strip g) = Inr p)"
proof -
  from move_match_groups [OF assms] obtain g1 g eq where
    "match_group out m 1 = Some g1"
    "int_group out m 1 =
       (if length g1 \<le> max_str_digits then Inr (int (digits_value g1 0)) else Inl ValueError)"
    "match_group out m 2 = Some g"
    "float_group out m 3 = Inr eq" by blast
  then show ?thesis by (simp add: parse_match_def bind_Inr)
qed

lemma matches_loop_returns:
  assumes "set ms \<subseteq> set (re_finditer False move_pat out)"
  shows "(\<exists>res. matches_loop out ms plays = Inr res) \<longleftrightarrow>
         (\<forall>m \<in> set ms.
            \<exists>g1 g p. match_group out m 1 = Some g1 \<and> length g1 \<le> max_str_digits \<and>
              match_group out m 2 = Some g \<and> parse_notation (strip g) = Inr p)"
  using assms
proof (induction ms arbitrary: plays)
  case Nil
  then show ?case by simp
next
  case (Cons m ms)
  from Cons.prems have m: "m \<in> set (re_finditer False move_pat out)"
    and ms: "set ms \<subseteq> set (re_finditer False move_pat out)" by simp_all
  have "(\<exists>res. matches_loop out (m # ms) plays = Inr res) \<longleftrightarrow>
        (\<exists>mid. parse_match out m plays = Inr mid \<and> (\<exists>res. matches_loop out ms mid = Inr res))"
    by (auto simp add: bind_Inr)
  also have "\<dots> \<longleftrightarrow> (\<exists>mid. parse_match out m plays = Inr mid) \<and>
        (\<forall>m \<in> set ms.
            \<exists>g1 g p. match_group out m 1 = Some g1 \<and> length g1 \<le> max_str_digits \<and>
              match_group out m 2 = Some g \<and> parse_notation (strip g) = Inr p)"
    using Cons.IH [OF ms] by blast
  finally show ?case using parse_match_returns [OF m, of plays] by simp
qed

lemma parse_evaluation_returns:
  "(\<exists>resp. parse_evaluation out = Inr resp) \<longleftrightarrow>
   (\<forall>m \<in> set (re_finditer False move_pat out).
      \<exists>g1 g p. match_group out m 1 = Some g1 \<and> length g1 \<le> max_str_digits \<and>
        match_group out m 2 = Some g \<and> parse_notation (strip g) = Inr p)"
proof -
  have "(\<exists>resp. parse_evaluation out = Inr resp) \<longleftrightarrow>
        (\<exists>plays. matches_loop out (re_finditer False move_pat out) [] = Inr plays)"
    by (auto simp add: parse_evaluation_def bind_Inr Let_def)
  then show ?thesis using matches_loop_returns [of "re_finditer False move_pat out" out "[]"]
    by simp
qed

subsection \<open>The result of the evaluation parser\<close>

text \<open>
  Claim C10 as stated fails: on a ranked line whose notation has a point that is no
  number the parser raises \<^verbatim>\<open>ValueError\<close>.
\<close>

theorem parse_evaluation_raises:
  "parse_evaluation ''1. a/b Eq.: 0.5'' = Inl ValueError"
  by code_simp

text \<open>
  Claim C10, amended. Whenever \<^verbatim>\<open>_parse_evaluation\<close> returns, the ranked list is not
  empty (one entry per match, or the single default entry), the best play is the play of
  its first entry and the best equity its equity. When nothing matches it returns the
  one entry of rank 1 with no moves, notation \<^verbatim>\<open>No move\<close> and equity 0. It returns
  exactly when, for every match, the rank has no more digits than \<^verbatim>\<open>int()\<close> converts
  and \<^verbatim>\<open>_parse_notation\<close> accepts the notation; otherwise it raises \<^verbatim>\<open>ValueError\<close>.
\<close>

theorem parse_evaluation_result:
  "(\<forall>resp. parse_evaluation out = Inr resp \<longrightarrow>
      all_plays resp \<noteq> [] \<and> best_play resp = play (hd (all_plays resp)) \<and>
      best_equity resp = equity (hd (all_plays resp)) \<and>
      length (all_plays resp) = max 1 (length (re_finditer False move_pat out))) \<and>
   (re_finditer False move_pat out = [] \<longrightarrow>
      parse_evaluation out =
        Inr \<lparr>best_play = \<lparr>moves = [], notation_str = ''No move''\<rparr>, best_equity = 0,
             all_plays = [\<lparr>rank = 1, play = \<lparr>moves = [], notation_str = ''No move''\<rparr>,
                            equity = 0, win_probability = 1 / 2, equity_difference = 0\<rparr>]\<rparr>) \<and>
   ((\<exists>resp. parse_evaluation out = Inr resp) \<longleftrightarrow>
      (\<forall>m \<in> set (re_finditer False move_pat out).
         \<exists>g1 g p. match_group out m 1 = Some g1 \<and> length g1 \<le> max_str_digits \<and>
            match_group out m 2 = Some g \<and> parse_notation (strip g) = Inr p)) \<and>
   (\<forall>e. parse_evaluation out = Inl e \<longrightarrow> e = ValueError)"
  using parse_evaluation_shape [of out] parse_evaluation_no_match [of out]
    parse_evaluation_returns [of out] parse_evaluation_error [of out]
  by (intro conjI allI impI) blast+

theorem parse_evaluation_result_witness:
  "parse_evaluation ''1. 24/21 13/10* Eq.: +0.123'' = Inr example_result \<and>
   all_plays example_result \<noteq> [] \<and>
   best_play example_result = play (hd (all_plays example_result)) \<and>
   best_equity example_result = equity (hd (all_plays example_result)) \<and>
   parse_evaluation ''no ranked line'' =
     Inr \<lparr>best_play = \<lparr>moves = [], notation_str = ''No move''\<rparr>, best_equity = 0,
          all_plays = [\<lparr>rank = 1, play = \<lparr>moves = [], notation_str = ''No move''\<rparr>,
                         equity = 0, win_probability = 1 / 2, equity_difference = 0\<rparr>]\<rparr>"
proof -
  have parsed: "parse_evaluation ''1. 24/21 13/10* Eq.: +0.123'' = Inr example_result"
    by code_simp
  have none: "re_finditer False move_pat ''no ranked line'' = []"
    by code_simp
  note shape = parse_evaluation_result [of "''1. 24/21 13/10* Eq.: +0.123''", THEN conjunct1,
      rule_format, OF parsed]
  note default = parse_evaluation_result [of "''no ranked line''", THEN conjunct2,
      THEN conjunct1, rule_format, OF none]
  from shape have "all_plays example_result \<noteq> []"
    and "best_play example_result = play (hd (all_plays example_result))"
    and "best_equity example_result = equity (hd (all_plays example_result))"
    by blast+
  with parsed default show ?thesis by blast
qed

section \<open>The mock strategy returns\<close>





section \<open>The orchestration of one evaluation\<close>


text \<open>
  What the \<^verbatim>\<open>try\<close> body does, by the replies of the engine to the seven commands: the
  first reply that is an exception ends it with that exception; an illegal position or
  a hint without the equity marker ends it with the mock result; otherwise the parser
  decides.
\<close>

lemma try_body_unfolded:
  assumes pid: "make_position_id (points req) (bar req) = Inr pos_id"
    and dice: "length (dice req) = 2"
  defines "c \<equiv> evaluate_commands req pos_id"
  shows "try_body eng rnd req trace =
    (case eng (trace @ take 1 c) of Inl e \<Rightarrow> (Inl e, trace @ take 1 c) | Inr r1 \<Rightarrow>
     case eng (trace @ take 2 c) of Inl e \<Rightarrow> (Inl e, trace @ take 2 c) | Inr r2 \<Rightarrow>
     case eng (trace @ take 3 c) of Inl e \<Rightarrow> (Inl e, trace @ take 3 c) | Inr set_result \<Rightarrow>
     if contains ''Illegal'' set_result then (mock_evaluate rnd req, trace @ take 3 c) else
     case eng (trace @ take 4 c) of Inl e \<Rightarrow> (Inl e, trace @ take 4 c) | Inr r4 \<Rightarrow>
     case eng (trace @ take 5 c) of Inl e \<Rightarrow> (Inl e, trace @ take 5 c) | Inr r5 \<Rightarrow>
     case eng (trace @ take 6 c) of Inl e \<Rightarrow> (Inl e, trace @ take 6 c) | Inr r6 \<Rightarrow>
     case eng (trace @ c) of Inl e \<Rightarrow> (Inl e, trace @ c) | Inr output \<Rightarrow>
     if output = [] \<or> \<not> contains ''Eq.:'' output then (mock_evaluate rnd req, trace @ c) else
     case parse_evaluation output of Inl e \<Rightarrow> (Inl e, trace @ c) | Inr result \<Rightarrow>
       (Inr (if player req = ''black'' then transform_for_black result else result),
        trace @ c))"
proof -
  have send_step: "\<And>cmd f tr. io_bind (send eng cmd) f tr =
      (case eng (tr @ [cmd]) of Inl e \<Rightarrow> (Inl e, tr @ [cmd]) | Inr r \<Rightarrow> f r (tr @ [cmd]))"
    by (simp add: io_bind_def send_def split: sum.splits)
  have lift_step: "\<And>v f tr. io_bind (lift (Inr v)) f tr = f v tr"
    by (simp add: io_bind_def lift_def)
  have lift_Inl: "\<And>e f tr. io_bind (lift (Inl e)) f tr = (Inl e, tr)"
    by (simp add: io_bind_def lift_def)
  have lift_parse: "\<And>x f tr. io_bind (lift x) f tr =
      (case x of Inl e \<Rightarrow> (Inl e, tr) | Inr v \<Rightarrow> f v tr)"
    by (simp add: io_bind_def lift_def split: sum.splits)
  have not_short: "\<not> length (dice req) < 2" using dice by simp
  have if_applied: "\<And>b (f :: EvaluateResponse io) g tr.
      (if b then f else g) tr = (if b then f tr else g tr)"
    by simp
  show ?thesis
    unfolding c_def try_body_def evaluate_commands_def
    by (simp add: send_step lift_parse pid not_short lift_def if_applied
        cong: sum.case_cong if_cong)
qed






text \<open>A request that runs to its end on an engine that answers: the seven commands are
  sent and the parsed hint is returned.\<close>

lemma evaluate_example:
  "evaluate ''1.0.0'' example_engine example_random example_request [] =
     (Inr example_result, evaluate_commands example_request ''4HPwATDgc/ABMA'')"
  by code_simp

text \<open>Without a fault the answer is the parsed hint, transformed for black.\<close>

lemma evaluate_clean_run:
  assumes wf: "wf_request req" and real: "version \<noteq> ''mock''"
    and counts: "white_count (points req) (bar req) (borne_off req) = 15"
      "black_count (points req) (bar req) (borne_off req) = 15"
    and pid: "make_position_id (points req) (bar req) = Inr pos_id"
    and replies: "\<forall>k. 1 \<le> k \<and> k \<le> 6 \<longrightarrow>
        (\<exists>r. eng (trace @ take k (evaluate_commands req pos_id)) = Inr r)"
    and legal: "\<forall>s. eng (trace @ take 3 (evaluate_commands req pos_id)) = Inr s \<longrightarrow>
        \<not> contains ''Illegal'' s"
    and hint: "eng (trace @ evaluate_commands req pos_id) = Inr out" "out \<noteq> []"
      "contains ''Eq.:'' out"
    and parsed: "parse_evaluation out = Inr result"
  shows "evaluate version eng rnd req trace =
     (Inr (if player req = ''black'' then transform_for_black result else result),
      trace @ evaluate_commands req pos_id)"
proof -
  let ?c = "evaluate_commands req pos_id"
  from wf have dice: "length (dice req) = 2"
    and lens: "\<not> (length (bar req) < 2 \<or> length (borne_off req) < 2)"
    by (simp_all add: wf_request_def)
  have "\<exists>r. eng (trace @ take k ?c) = Inr r" if "1 \<le> k \<and> k \<le> 6" for k
    using replies that by blast
  from this [of 1] this [of 2] this [of 3] this [of 4] this [of 5] this [of 6]
  obtain r1 r2 r3 r4 r5 r6 where
    r: "eng (trace @ take 1 ?c) = Inr r1" "eng (trace @ take 2 ?c) = Inr r2"
       "eng (trace @ take 3 ?c) = Inr r3" "eng (trace @ take 4 ?c) = Inr r4"
       "eng (trace @ take 5 ?c) = Inr r5" "eng (trace @ take 6 ?c) = Inr r6"
    by auto
  from legal r(3) have ok: "\<not> contains ''Illegal'' r3" by simp
  have "try_body eng rnd req trace =
     (Inr (if player req = ''black'' then transform_for_black result else result), trace @ ?c)"
    unfolding try_body_unfolded [OF pid dice]
    by (simp only: r ok hint parsed sum.case if_False simp_thms)
  then show ?thesis using real counts lens by (simp add: evaluate_def)
qed

end
